theory Spec2Isabelle
  imports Main "HOL-Library.Word"
begin

unbundle bit_operations_syntax

section \<open>Data model\<close>

text \<open>
  The gateway firmware keeps all of its protocol state in C globals and function
  statics.  They are collected here in one record that every handler takes and returns.
  Machine integers are words of the width the source declares.
\<close>

type_synonym u8 = "8 word"
type_synonym u16 = "16 word"
type_synonym u32 = "32 word"

text \<open>
  Memory faults.  The C source indexes fixed arrays without a check of its own; a
  write or copy that leaves the array is undefined behaviour there and a fault here.
  \<^item> \<open>RxBufferOverrun\<close>: a store to \<open>serialRxBuffer [ 512 ]\<close> at an index of 512 or more;
  \<^item> \<open>EventDataOverrun\<close>: the \<open>memcpy\<close> of the frame into \<open>eventMessage.Data [ 244 ]\<close>
    with more than 244 bytes;
  \<^item> \<open>ProtocolIdOutOfRange\<close>: an index into the 11 entries of \<open>protocolHandlerTable\<close>.
\<close>

datatype fault = RxBufferOverrun | EventDataOverrun | ProtocolIdOutOfRange

text \<open>\<open>eventMessage_t\<close> of build.h: 1 + 3 + 4 + 4 + 244 = 256 bytes.\<close>

record eventMessage_t =
  ev_Type :: u8
  ev_Length :: "u8 list"
  ev_TimeStamp :: u32
  ev_SecondFracPart :: u32
  ev_Data :: "u8 list"

text \<open>\<open>nimbusTransferMessage_t\<close> of build.h: 1 + 3 + 4 + 4 + 4 + 1008 = 1024 bytes.\<close>

record nimbusTransferMessage_t =
  tm_Type :: u8
  tm_Length :: "u8 list"
  tm_uniqueTransferId :: u32
  tm_TimeStamp :: u32
  tm_SecondFracPart :: u32
  tm_Data :: "u8 list"

record gateway =
  \<comment> \<open>globals of panel_protocol\<close>
  serialRxState :: u8
  serialRxBuffer :: "nat \<Rightarrow> u8"
  serialRxLength :: u16
  totalDiscardedBytes :: u32
  totalRxEvents :: u32
  uniqueTransferId :: u8
  serialLen :: u8
  transferLen :: u8
  eventMessage :: eventMessage_t
  nimbusTransferMessage :: nimbusTransferMessage_t
  \<comment> \<open>\<open>particleEepromData\<close>: the two configuration fields the protocol engine reads\<close>
  protocolId :: u8
  verbose :: bool
  \<comment> \<open>statics of \<open>serialRxAdvancedAscii\<close>\<close>
  lineCount :: u8
  lineCharCount :: u8
  previousChar :: u8
  \<comment> \<open>statics of \<open>serialRxGent\<close>\<close>
  gent_i :: u8
  rxExpectedLen :: u8
  rxChecksum :: u16
  \<comment> \<open>\<open>idCodeTable [k].count\<close> and \<open>errorStr\<close> of panel_serial_Advanced\<close>
  idCodeCount :: "u8 list"
  errorStr :: string
  \<comment> \<open>environment: the readings \<open>Time.now()\<close> returns, and how many were taken\<close>
  clock :: "nat \<Rightarrow> u32"
  clockReads :: nat
  \<comment> \<open>traces: the frames handed to \<open>serialTxEventToNimbus\<close>, and the transfer
     records handed to \<open>Base64::encode\<close> and \<open>Particle.publish\<close>, each with the
     number of its bytes that are encoded\<close>
  forwarded :: "u8 list list"
  published :: "(nimbusTransferMessage_t \<times> nat) list"

text \<open>
  The state after reset: C zero-initialises globals and statics; \<open>uniqueTransferId\<close>
  is initialised to 1.
\<close>

definition gateway0 :: gateway where
  "gateway0 = \<lparr>
     serialRxState = 0, serialRxBuffer = (\<lambda>_. 0), serialRxLength = 0,
     totalDiscardedBytes = 0, totalRxEvents = 0, uniqueTransferId = 1,
     serialLen = 0, transferLen = 0,
     eventMessage = \<lparr>ev_Type = 0, ev_Length = [0, 0, 0], ev_TimeStamp = 0,
       ev_SecondFracPart = 0, ev_Data = replicate 244 0\<rparr>,
     nimbusTransferMessage = \<lparr>tm_Type = 0, tm_Length = [0, 0, 0], tm_uniqueTransferId = 0,
       tm_TimeStamp = 0, tm_SecondFracPart = 0, tm_Data = replicate 1008 0\<rparr>,
     protocolId = 0, verbose = False,
     lineCount = 0, lineCharCount = 0, previousChar = 0,
     gent_i = 0, rxExpectedLen = 0, rxChecksum = 0,
     idCodeCount = replicate 7 0, errorStr = [],
     clock = (\<lambda>_. 0), clockReads = 0,
     forwarded = [], published = []\<rparr>"

text \<open>Reading a result: \<open>None\<close> on a fault, the observed value otherwise.\<close>

definition resultOf :: "('s \<Rightarrow> 'a) \<Rightarrow> fault + 's \<Rightarrow> 'a option" where
  "resultOf f r = (case r of Inl e \<Rightarrow> None | Inr s \<Rightarrow> Some (f s))"

section \<open>Transfer encoder\<close>

text \<open>\<open>Time.now()\<close>: the next reading of the clock.\<close>

definition Time_now :: "gateway \<Rightarrow> u32 \<times> gateway" where
  "Time_now s = (clock s (clockReads s), s\<lparr>clockReads := clockReads s + 1\<rparr>)"

text \<open>A 32-bit field as it lies in memory on the (little-endian) target.\<close>

definition le32 :: "u32 \<Rightarrow> u8 list" where
  "le32 w = [ucast w, ucast (drop_bit 8 w), ucast (drop_bit 16 w), ucast (drop_bit 24 w)]"

text \<open>The union views \<open>eventMessage.Event [ 256 ]\<close> and \<open>nimbusTransferMessage.Message [ 1024 ]\<close>.\<close>

definition Event :: "eventMessage_t \<Rightarrow> u8 list" where
  "Event m = ev_Type m # ev_Length m @ le32 (ev_TimeStamp m) @ le32 (ev_SecondFracPart m) @ ev_Data m"

definition Message :: "nimbusTransferMessage_t \<Rightarrow> u8 list" where
  "Message m = tm_Type m # tm_Length m @ le32 (tm_uniqueTransferId m) @ le32 (tm_TimeStamp m)
     @ le32 (tm_SecondFracPart m) @ tm_Data m"

text \<open>\<open>memcpy (dst, src, n)\<close> into an array at least \<open>n\<close> long: the first \<open>n\<close> bytes change.\<close>

definition memcpy :: "u8 list \<Rightarrow> u8 list \<Rightarrow> nat \<Rightarrow> u8 list" where
  "memcpy dst src n = take n src @ drop n dst"

text \<open>
  \<open>Base64::encode\<close> is the Base64RK library's.  It fails only when the destination is
  too small for the encoded text and its terminating zero; \<open>encodedBuf\<close> has 1024 bytes.
\<close>

definition Base64_encode_ok :: "nat \<Rightarrow> bool" where
  "Base64_encode_ok srcLen = (4 * ((srcLen + 2) div 3) + 1 \<le> 1024)"

text \<open>The bytes of a published record that are encoded and sent.\<close>

definition publishedBytes :: "nimbusTransferMessage_t \<times> nat \<Rightarrow> u8 list" where
  "publishedBytes r = take (snd r) (Message (fst r))"

text \<open>
  \<open>serialTxEventToNimbus\<close>.  \<open>serialLen\<close> and \<open>transferLen\<close> are \<open>uint8_t\<close> globals: every
  assignment to them truncates to eight bits.
\<close>

definition serialTxEventToNimbus :: "gateway \<Rightarrow> fault + gateway" where
  "serialTxEventToNimbus s =
    (let n = unat (serialRxLength s);
         frame = map (serialRxBuffer s) [0..<n];
         s1 = s\<lparr>totalRxEvents := totalRxEvents s + 1, forwarded := forwarded s @ [frame]\<rparr>;
         len1 = (word_of_nat (n + 8) :: u8);
         (t1, s2) = Time_now s1
     in if 244 < n then Inl EventDataOverrun
        else
          let ev = \<lparr>ev_Type = protocolId s2, ev_Length = [len1, 0, 0], ev_TimeStamp = t1,
                      ev_SecondFracPart = 0,
                      ev_Data = memcpy (ev_Data (eventMessage s2)) frame n\<rparr>;
              len2 = len1 + 4;
              tlen1 = len2 + 12;
              (t2, s3) = Time_now s2;
              tm = \<lparr>tm_Type = 0x83, tm_Length = [tlen1, 0, 0],
                      tm_uniqueTransferId = ucast (uniqueTransferId s3), tm_TimeStamp = t2,
                      tm_SecondFracPart = 0,
                      tm_Data = memcpy (tm_Data (nimbusTransferMessage s3)) (Event ev) (unat len2)\<rparr>;
              tlen2 = tlen1 + 4;
              s4 = s3\<lparr>eventMessage := ev, nimbusTransferMessage := tm, serialLen := len2,
                      transferLen := tlen2, uniqueTransferId := uniqueTransferId s3 + 1\<rparr>
          in if Base64_encode_ok (unat tlen2)
             then Inr (s4\<lparr>published := published s4 @ [(tm, unat tlen2)]\<rparr>)
             else Inr s4)"

section \<open>Line-oriented ASCII parser (Advanced MXPro ASCII)\<close>

text \<open>\<open>serialRxBuffer [serialRxLength++] = c\<close>, with the bound of the 512-byte array.\<close>

definition rxStore :: "u8 \<Rightarrow> gateway \<Rightarrow> fault + gateway" where
  "rxStore c s =
    (if unat (serialRxLength s) < 512
     then Inr (s\<lparr>serialRxBuffer := (serialRxBuffer s)(unat (serialRxLength s) := c),
                 serialRxLength := serialRxLength s + 1\<rparr>)
     else Inl RxBufferOverrun)"

definition ADVANCED_ASCII_MAX_LINES :: u8 where "ADVANCED_ASCII_MAX_LINES = 8"
definition ADVANCED_ASCII_LINE_LENGTH :: u8 where "ADVANCED_ASCII_LINE_LENGTH = 42"
definition ADVANCED_ASCII_MAX_LENGTH :: u16 where "ADVANCED_ASCII_MAX_LENGTH = 312"

text \<open>
  \<open>serialRxAdvancedAscii\<close>, one case per state.  In state 1 the branch for too many
  lines leaves by \<open>break\<close>, before \<open>previousChar\<close> is updated.
\<close>

definition asciiIdle :: "u8 \<Rightarrow> gateway \<Rightarrow> fault + gateway" where
  "asciiIdle rxChar s =
    (case rxStore rxChar (s\<lparr>lineCharCount := lineCharCount s + 1\<rparr>) of
       Inl e \<Rightarrow> Inl e
     | Inr s1 \<Rightarrow>
         let s2 =
           (if rxChar = 0x0a then
              (if 2 < lineCharCount s1
               then s1\<lparr>lineCount := 1, lineCharCount := 0, serialRxState := 1\<rparr>
               else s1\<lparr>serialRxLength := 0, lineCharCount := 0\<rparr>)
            else if ADVANCED_ASCII_LINE_LENGTH < lineCharCount s1
            then s1\<lparr>lineCharCount := 0, serialRxLength := 0\<rparr>
            else s1)
         in Inr (s2\<lparr>previousChar := rxChar\<rparr>))"

definition asciiCollect :: "u8 \<Rightarrow> gateway \<Rightarrow> fault + gateway" where
  "asciiCollect rxChar s =
    (case rxStore rxChar (s\<lparr>lineCharCount := lineCharCount s + 1\<rparr>) of
       Inl e \<Rightarrow> Inl e
     | Inr s1 \<Rightarrow>
         if rxChar = 0x0a then
           (if 2 < lineCharCount s1 then
              (let s2 = s1\<lparr>lineCount := lineCount s1 + 1\<rparr>
               in if ADVANCED_ASCII_MAX_LINES < lineCount s2
                  then Inr (s2\<lparr>lineCharCount := 0, serialRxState := 2\<rparr>)
                  else Inr (s2\<lparr>lineCharCount := 0, previousChar := rxChar\<rparr>))
            else if lineCharCount s1 = 2 \<and> previousChar s1 = 0x0d then
              (case serialTxEventToNimbus s1 of
                 Inl e \<Rightarrow> Inl e
               | Inr s2 \<Rightarrow>
                   Inr (s2\<lparr>lineCharCount := 0, serialRxLength := 0, serialRxState := 0,
                           previousChar := rxChar\<rparr>))
            else Inr (s1\<lparr>lineCharCount := 0, serialRxState := 2, previousChar := rxChar\<rparr>))
         else if ADVANCED_ASCII_LINE_LENGTH < lineCharCount s1
         then Inr (s1\<lparr>lineCharCount := 0, serialRxState := 2, previousChar := rxChar\<rparr>)
         else if ADVANCED_ASCII_MAX_LENGTH \<le> serialRxLength s1
         then Inr (s1\<lparr>lineCharCount := 0, serialRxState := 2, previousChar := rxChar\<rparr>)
         else Inr (s1\<lparr>previousChar := rxChar\<rparr>))"

definition asciiRecover :: "u8 \<Rightarrow> gateway \<Rightarrow> fault + gateway" where
  "asciiRecover rxChar s =
    (let s1 = s\<lparr>lineCharCount := lineCharCount s + 1\<rparr>;
         s2 =
           (if rxChar = 0x0a then
              (if 2 < lineCharCount s1 then s1\<lparr>lineCharCount := 0\<rparr>
               else if lineCharCount s1 = 2 \<and> previousChar s1 = 0x0d
               then s1\<lparr>lineCharCount := 0, serialRxLength := 0, serialRxState := 0\<rparr>
               else s1)
            else s1)
     in Inr (s2\<lparr>previousChar := rxChar\<rparr>))"

definition serialRxAdvancedAscii :: "u8 \<Rightarrow> gateway \<Rightarrow> fault + gateway" where
  "serialRxAdvancedAscii rxChar s =
    (if serialRxState s = 0 then asciiIdle rxChar s
     else if serialRxState s = 1 then asciiCollect rxChar s
     else if serialRxState s = 2 then asciiRecover rxChar s
     else Inr (s\<lparr>lineCharCount := 0, serialRxLength := 0, serialRxState := 0\<rparr>))"

text \<open>A byte handler run over the bytes of the line, one call per byte, up to a fault.\<close>

fun feed :: "(u8 \<Rightarrow> gateway \<Rightarrow> fault + gateway) \<Rightarrow> u8 list \<Rightarrow> gateway \<Rightarrow> fault + gateway" where
  "feed h [] s = Inr s"
| "feed h (c # cs) s = (case h c s of Inl e \<Rightarrow> Inl e | Inr s1 \<Rightarrow> feed h cs s1)"

section \<open>Binary checksummed parser (Gent Vigilon)\<close>

definition ASCII_ACK :: u8 where "ASCII_ACK = 0x06"
definition ASCII_NAK :: u8 where "ASCII_NAK = 0x15"

text \<open>\<open>serialRxBuffer [i++] = c\<close> with the \<open>uint8_t\<close> static \<open>i\<close>: always inside the array.\<close>

definition gentStore :: "u8 \<Rightarrow> gateway \<Rightarrow> gateway" where
  "gentStore c s = s\<lparr>serialRxBuffer := (serialRxBuffer s)(unat (gent_i s) := c),
                      gent_i := gent_i s + 1\<rparr>"

definition rxGentValidateEventPair :: "gateway \<Rightarrow> bool" where
  "rxGentValidateEventPair s =
    (let msb = serialRxBuffer s 0; lsb = serialRxBuffer s 1
     in if msb = 0 then (1 \<le> lsb \<and> lsb \<le> 6) \<or> lsb = ASCII_NAK
        else if msb = 2 then lsb = 1 \<or> lsb = 2
        else msb = 4 \<or> msb = 5 \<or> msb = 7 \<or> msb = 9 \<or> msb = 10 \<or> msb = 18)"

definition serialProcessGent :: "gateway \<Rightarrow> fault + gateway" where
  "serialProcessGent s = serialTxEventToNimbus s"

definition serialRxGent :: "u8 \<Rightarrow> gateway \<Rightarrow> fault + gateway" where
  "serialRxGent rxChar s =
    (if serialRxState s = 0 then
       (if 0x12 < rxChar then Inr s
        else Inr ((gentStore rxChar (s\<lparr>gent_i := 0, serialRxState := 1\<rparr>))
                    \<lparr>rxChecksum := ucast rxChar\<rparr>))
     else if serialRxState s = 1 then
       (let s1 = gentStore rxChar s;
            s2 = s1\<lparr>rxChecksum := rxChecksum s1 + ucast rxChar\<rparr>
        in if rxGentValidateEventPair s2 then
             (if rxChar = ASCII_ACK \<or> rxChar = ASCII_NAK
              then Inr (s2\<lparr>serialRxState := 3\<rparr>)
              else Inr (s2\<lparr>rxExpectedLen := 56, serialRxState := 2\<rparr>))
           else Inr (s2\<lparr>serialRxState := 0\<rparr>))
     else if serialRxState s = 2 then
       (let s1 = (if gent_i s < rxExpectedLen s then gentStore rxChar s
                  else gentStore rxChar (s\<lparr>serialRxState := 3\<rparr>))
        in Inr (s1\<lparr>rxChecksum := rxChecksum s1 + ucast rxChar\<rparr>))
     else if serialRxState s = 3 then
       (if rxChar = ucast (drop_bit 8 (rxChecksum s))
        then Inr (gentStore rxChar (s\<lparr>serialRxState := 4\<rparr>))
        else Inr (s\<lparr>serialRxState := 0\<rparr>))
     else if serialRxState s = 4 then
       (if rxChar = ucast (rxChecksum s AND 0x00ff) then
          (let s1 = gentStore rxChar s
           in if gent_i s1 = 59 then
                (case serialProcessGent (s1\<lparr>serialRxLength := ucast (gent_i s1)\<rparr>) of
                   Inl e \<Rightarrow> Inl e
                 | Inr s2 \<Rightarrow> Inr (s2\<lparr>serialRxState := 0\<rparr>))
              else Inr (s1\<lparr>serialRxState := 0\<rparr>))
        else Inr (s\<lparr>serialRxState := 0\<rparr>))
     else Inr s)"

section \<open>Binary CRC parser with byte stuffing (Advanced MXPro BMS)\<close>

definition ADVANCED_MIN_LENGTH :: u16 where "ADVANCED_MIN_LENGTH = 12"
definition ADVANCED_MAX_LENGTH :: u16 where "ADVANCED_MAX_LENGTH = 108"

definition crc_table_low :: "u8 list" where
  "crc_table_low = [
     0x00, 0xc0, 0xc1, 0x01, 0xc3, 0x03, 0x02, 0xc2, 0xc6, 0x06, 0x07, 0xc7, 0x05, 0xc5, 0xc4, 0x04,
     0xcc, 0x0c, 0x0d, 0xcd, 0x0f, 0xcf, 0xce, 0x0e, 0x0a, 0xca, 0xcb, 0x0b, 0xc9, 0x09, 0x08, 0xc8,
     0xd8, 0x18, 0x19, 0xd9, 0x1b, 0xdb, 0xda, 0x1a, 0x1e, 0xde, 0xdf, 0x1f, 0xdd, 0x1d, 0x1c, 0xdc,
     0x14, 0xd4, 0xd5, 0x15, 0xd7, 0x17, 0x16, 0xd6, 0xd2, 0x12, 0x13, 0xd3, 0x11, 0xd1, 0xd0, 0x10,
     0xf0, 0x30, 0x31, 0xf1, 0x33, 0xf3, 0xf2, 0x32, 0x36, 0xf6, 0xf7, 0x37, 0xf5, 0x35, 0x34, 0xf4,
     0x3c, 0xfc, 0xfd, 0x3d, 0xff, 0x3f, 0x3e, 0xfe, 0xfa, 0x3a, 0x3b, 0xfb, 0x39, 0xf9, 0xf8, 0x38,
     0x28, 0xe8, 0xe9, 0x29, 0xeb, 0x2b, 0x2a, 0xea, 0xee, 0x2e, 0x2f, 0xef, 0x2d, 0xed, 0xec, 0x2c,
     0xe4, 0x24, 0x25, 0xe5, 0x27, 0xe7, 0xe6, 0x26, 0x22, 0xe2, 0xe3, 0x23, 0xe1, 0x21, 0x20, 0xe0,
     0xa0, 0x60, 0x61, 0xa1, 0x63, 0xa3, 0xa2, 0x62, 0x66, 0xa6, 0xa7, 0x67, 0xa5, 0x65, 0x64, 0xa4,
     0x6c, 0xac, 0xad, 0x6d, 0xaf, 0x6f, 0x6e, 0xae, 0xaa, 0x6a, 0x6b, 0xab, 0x69, 0xa9, 0xa8, 0x68,
     0x78, 0xb8, 0xb9, 0x79, 0xbb, 0x7b, 0x7a, 0xba, 0xbe, 0x7e, 0x7f, 0xbf, 0x7d, 0xbd, 0xbc, 0x7c,
     0xb4, 0x74, 0x75, 0xb5, 0x77, 0xb7, 0xb6, 0x76, 0x72, 0xb2, 0xb3, 0x73, 0xb1, 0x71, 0x70, 0xb0,
     0x50, 0x90, 0x91, 0x51, 0x93, 0x53, 0x52, 0x92, 0x96, 0x56, 0x57, 0x97, 0x55, 0x95, 0x94, 0x54,
     0x9c, 0x5c, 0x5d, 0x9d, 0x5f, 0x9f, 0x9e, 0x5e, 0x5a, 0x9a, 0x9b, 0x5b, 0x99, 0x59, 0x58, 0x98,
     0x88, 0x48, 0x49, 0x89, 0x4b, 0x8b, 0x8a, 0x4a, 0x4e, 0x8e, 0x8f, 0x4f, 0x8d, 0x4d, 0x4c, 0x8c,
     0x44, 0x84, 0x85, 0x45, 0x87, 0x47, 0x46, 0x86, 0x82, 0x42, 0x43, 0x83, 0x41, 0x81, 0x80, 0x40]"

definition crc_table_high :: "u8 list" where
  "crc_table_high = [
     0x00, 0xc1, 0x81, 0x40, 0x01, 0xc0, 0x80, 0x41, 0x01, 0xc0, 0x80, 0x41, 0x00, 0xc1, 0x81, 0x40,
     0x01, 0xc0, 0x80, 0x41, 0x00, 0xc1, 0x81, 0x40, 0x00, 0xc1, 0x81, 0x40, 0x01, 0xc0, 0x80, 0x41,
     0x01, 0xc0, 0x80, 0x41, 0x00, 0xc1, 0x81, 0x40, 0x00, 0xc1, 0x81, 0x40, 0x01, 0xc0, 0x80, 0x41,
     0x00, 0xc1, 0x81, 0x40, 0x01, 0xc0, 0x80, 0x41, 0x01, 0xc0, 0x80, 0x41, 0x00, 0xc1, 0x81, 0x40,
     0x01, 0xc0, 0x80, 0x41, 0x00, 0xc1, 0x81, 0x40, 0x00, 0xc1, 0x81, 0x40, 0x01, 0xc0, 0x80, 0x41,
     0x00, 0xc1, 0x81, 0x40, 0x01, 0xc0, 0x80, 0x41, 0x01, 0xc0, 0x80, 0x41, 0x00, 0xc1, 0x81, 0x40,
     0x00, 0xc1, 0x81, 0x40, 0x01, 0xc0, 0x80, 0x41, 0x01, 0xc0, 0x80, 0x41, 0x00, 0xc1, 0x81, 0x40,
     0x01, 0xc0, 0x80, 0x41, 0x00, 0xc1, 0x81, 0x40, 0x00, 0xc1, 0x81, 0x40, 0x01, 0xc0, 0x80, 0x41,
     0x01, 0xc0, 0x80, 0x41, 0x00, 0xc1, 0x81, 0x40, 0x00, 0xc1, 0x81, 0x40, 0x01, 0xc0, 0x80, 0x41,
     0x00, 0xc1, 0x81, 0x40, 0x01, 0xc0, 0x80, 0x41, 0x01, 0xc0, 0x80, 0x41, 0x00, 0xc1, 0x81, 0x40,
     0x00, 0xc1, 0x81, 0x40, 0x01, 0xc0, 0x80, 0x41, 0x01, 0xc0, 0x80, 0x41, 0x00, 0xc1, 0x81, 0x40,
     0x01, 0xc0, 0x80, 0x41, 0x00, 0xc1, 0x81, 0x40, 0x00, 0xc1, 0x81, 0x40, 0x01, 0xc0, 0x80, 0x41,
     0x00, 0xc1, 0x81, 0x40, 0x01, 0xc0, 0x80, 0x41, 0x01, 0xc0, 0x80, 0x41, 0x00, 0xc1, 0x81, 0x40,
     0x01, 0xc0, 0x80, 0x41, 0x00, 0xc1, 0x81, 0x40, 0x00, 0xc1, 0x81, 0x40, 0x01, 0xc0, 0x80, 0x41,
     0x01, 0xc0, 0x80, 0x41, 0x00, 0xc1, 0x81, 0x40, 0x00, 0xc1, 0x81, 0x40, 0x01, 0xc0, 0x80, 0x41,
     0x00, 0xc1, 0x81, 0x40, 0x01, 0xc0, 0x80, 0x41, 0x01, 0xc0, 0x80, 0x41, 0x00, 0xc1, 0x81, 0x40]"

text \<open>
  The codes of \<open>idCodeTable\<close>, in table order: Acknowledgement, Device Status, Node
  Status, Network Configuration Change, Zone Text, Analogue Value, Output Activated /
  Deactivated by BMS.  The counts of the table are the field \<open>idCodeCount\<close>.
\<close>

definition idCodes :: "u8 list" where
  "idCodes = [0x01, 0x0A, 0x0B, 0x0C, 0x0D, 0x0E, 0x0F]"

definition NUM_ID_CODES :: nat where "NUM_ID_CODES = 7"

text \<open>The \<open>for\<close> loop over the table: the first index whose code matches, if any.\<close>

fun findIdCode :: "u8 \<Rightarrow> u8 list \<Rightarrow> nat \<Rightarrow> nat option" where
  "findIdCode code [] i = None"
| "findIdCode code (c # cs) i = (if code = c then Some i else findIdCode code cs (i + 1))"

text \<open>\<open>advancedCrcUpdate\<close> over the bytes \<open>buff [0 .. count)\<close>; the pair is (crc_hi, crc_lo).\<close>

fun advancedCrcUpdate :: "u8 list \<Rightarrow> u8 \<times> u8 \<Rightarrow> u8 \<times> u8" where
  "advancedCrcUpdate [] crc = crc"
| "advancedCrcUpdate (b # bs) crc =
     (let table_index = fst crc XOR b
      in advancedCrcUpdate bs
           (snd crc XOR crc_table_high ! unat table_index, crc_table_low ! unat table_index))"

text \<open>
  \<open>validateCRC\<close>: the CRC over \<open>len - 4\<close> bytes from \<open>buf + 1\<close>, compared with
  \<open>buf [len - 3]\<close> and \<open>buf [len - 2]\<close>.  Its only caller has checked \<open>12 \<le> len\<close>.
\<close>

definition validateCRC :: "(nat \<Rightarrow> u8) \<Rightarrow> u16 \<Rightarrow> bool" where
  "validateCRC buf len =
    (let crc = advancedCrcUpdate (map buf [1..<1 + unat (len - 4)]) (0xff, 0xff)
     in buf (unat len - 3) = fst crc \<and> buf (unat len - 2) = snd crc)"

text \<open>
  The \<open>do ... while\<close> loop of \<open>checkPacketFormat\<close>.  \<open>code\<close>, \<open>offset\<close> and \<open>maxOffset\<close>
  are \<open>uint8_t\<close>; the loop has no bound of its own, so not returning is the value
  \<open>None\<close>.  The result is the verdict and the counts of the table.
\<close>

partial_function (option) checkPacketFormat_loop ::
  "(nat \<Rightarrow> u8) \<Rightarrow> u8 \<Rightarrow> u8 \<Rightarrow> u8 \<Rightarrow> u8 list \<Rightarrow> (bool \<times> u8 list) option" where
  "checkPacketFormat_loop buf maxOffset code offset counts =
    (case findIdCode code idCodes 0 of
       None \<Rightarrow> Some (False, counts)
     | Some i \<Rightarrow>
         if maxOffset < offset + buf (unat offset) - 1
         then Some (False, counts[i := counts ! i + 1])
         else if buf (unat (offset + buf (unat offset) - 1)) = 0xf0
         then Some (True, counts[i := counts ! i + 1])
         else checkPacketFormat_loop buf maxOffset
                (buf (unat (offset + buf (unat offset) - 1)))
                (offset + buf (unat offset) - 1 + 1)
                (counts[i := counts ! i + 1]))"

definition checkPacketFormat :: "gateway \<Rightarrow> (bool \<times> gateway) option" where
  "checkPacketFormat s =
    map_option (\<lambda>r. (fst r, s\<lparr>idCodeCount := snd r\<rparr>))
      (checkPacketFormat_loop (serialRxBuffer s) (ucast (serialRxLength s - 4))
         (serialRxBuffer s 5) 6 (replicate NUM_ID_CODES 0))"

text \<open>
  The messages \<open>validateAdvancedBmsPacket\<close> writes to \<open>errorStr\<close> with \<open>sprintf\<close>; each
  ends with carriage return and line feed.  \<open>printf_x\<close> is the conversion \<open>%x\<close> of a
  byte: lower-case hexadecimal with no leading zero.
\<close>

definition crlf :: string where
  "crlf = [CHR 0x0D, CHR 0x0A]"

definition hexDigit :: "nat \<Rightarrow> char" where
  "hexDigit n = ''0123456789abcdef'' ! n"

definition printf_x :: "u8 \<Rightarrow> string" where
  "printf_x b =
    (if unat b < 16 then [hexDigit (unat b)]
     else [hexDigit (unat b div 16), hexDigit (unat b mod 16)])"

definition errPacketTooShort :: string where
  "errPacketTooShort = ''Error - Packet too short'' @ crlf"

definition errInvalidCRC :: string where
  "errInvalidCRC = ''Error - Invalid CRC'' @ crlf"

definition errInvalidPacketId :: "u8 \<Rightarrow> string" where
  "errInvalidPacketId found =
     ''Error - Invalid Packet Id. Expected 0x80, found 0x'' @ printf_x found @ crlf"

definition errInvalidPacketFormat :: string where
  "errInvalidPacketFormat = ''Error - Invalid Packet Format'' @ crlf"

definition validateAdvancedBmsPacket :: "gateway \<Rightarrow> (bool \<times> gateway) option" where
  "validateAdvancedBmsPacket s =
    (if serialRxLength s < ADVANCED_MIN_LENGTH
     then Some (False, s\<lparr>errorStr := errPacketTooShort\<rparr>)
     else if \<not> validateCRC (serialRxBuffer s) (serialRxLength s)
     then Some (False, s\<lparr>errorStr := errInvalidCRC\<rparr>)
     else if serialRxBuffer s 1 \<noteq> 0x80
     then Some (False, s\<lparr>errorStr := errInvalidPacketId (serialRxBuffer s 1)\<rparr>)
     else (case checkPacketFormat s of
             None \<Rightarrow> None
           | Some r \<Rightarrow>
               if fst r then Some (True, snd r)
               else Some (False, (snd r)\<lparr>errorStr := errInvalidPacketFormat\<rparr>)))"

definition advancedPacketReceptionError :: "gateway \<Rightarrow> fault + gateway" where
  "advancedPacketReceptionError s = (if verbose s then serialTxEventToNimbus s else Inr s)"

text \<open>What \<open>serialRxAdvanced\<close> does once the end byte is stored and the packet judged.\<close>

definition advancedDispatch :: "bool \<Rightarrow> gateway \<Rightarrow> fault + gateway" where
  "advancedDispatch valid s =
    (case (if valid
           then (if verbose s \<or> 0 < idCodeCount s ! 1 then serialTxEventToNimbus s else Inr s)
           else (if verbose s then serialTxEventToNimbus s
                 else Inr (s\<lparr>totalDiscardedBytes :=
                               totalDiscardedBytes s + ucast (serialRxLength s)\<rparr>))) of
       Inl e \<Rightarrow> Inl e
     | Inr s1 \<Rightarrow> Inr (s1\<lparr>serialRxState := 0\<rparr>))"

text \<open>The error branches: report, count the bytes as discarded, back to state 0.\<close>

definition advancedAbort :: "gateway \<Rightarrow> fault + gateway" where
  "advancedAbort s =
    (case advancedPacketReceptionError s of
       Inl e \<Rightarrow> Inl e
     | Inr s1 \<Rightarrow>
         Inr (s1\<lparr>totalDiscardedBytes := totalDiscardedBytes s1 + ucast (serialRxLength s1),
                 serialRxState := 0\<rparr>))"

definition serialRxAdvanced :: "u8 \<Rightarrow> gateway \<Rightarrow> (fault + gateway) option" where
  "serialRxAdvanced rxChar s =
    (if serialRxState s = 0 then
       (if rxChar = 0xfe
        then Some (rxStore rxChar (s\<lparr>serialRxLength := 0, serialRxState := 1\<rparr>))
        else Some (Inr s))
     else if serialRxState s = 1 then
       (if rxChar = 0xff then
          (case rxStore rxChar s of
             Inl e \<Rightarrow> Some (Inl e)
           | Inr s1 \<Rightarrow>
               (case validateAdvancedBmsPacket s1 of
                  None \<Rightarrow> None
                | Some r \<Rightarrow> Some (advancedDispatch (fst r) (snd r))))
        else if rxChar = 0xfa then Some (Inr (s\<lparr>serialRxState := 2\<rparr>))
        else if 0xfa < rxChar \<and> rxChar \<le> 0xfe then Some (advancedAbort s)
        else if ADVANCED_MAX_LENGTH \<le> serialRxLength s then Some (advancedAbort s)
        else Some (rxStore rxChar s))
     else if serialRxState s = 2 then
       (if 0x05 < rxChar then Some (advancedAbort s)
        else Some (case rxStore (rxChar + 0xfa) s of
                     Inl e \<Rightarrow> Inl e
                   | Inr s1 \<Rightarrow> Inr (s1\<lparr>serialRxState := 1\<rparr>)))
     else Some (Inr (s\<lparr>serialRxState := 0\<rparr>)))"

text \<open>
  \<open>serialRxAdvanced\<close> run over the bytes of the line: \<open>None\<close> when a call does not
  return, \<open>Some (Inl e)\<close> at a fault.
\<close>

fun feedAdvanced :: "u8 list \<Rightarrow> gateway \<Rightarrow> (fault + gateway) option" where
  "feedAdvanced [] s = Some (Inr s)"
| "feedAdvanced (c # cs) s =
     (case serialRxAdvanced c s of
        None \<Rightarrow> None
      | Some (Inl e) \<Rightarrow> Some (Inl e)
      | Some (Inr s1) \<Rightarrow> feedAdvanced cs s1)"

text \<open>
  \<open>advancedAddClashCodes\<close>.  \<open>pbuf_in\<close> holds \<open>*pbuf_len\<close> bytes; the first and the last
  are copied, every byte between them of value 0xfa or more becomes two.  The result is
  the output buffer and the new \<open>*pbuf_len\<close>.  A packet of fewer than two bytes makes
  \<open>*pbuf_len - 2\<close> wrap around and the loop leave the buffer: \<open>None\<close>.
\<close>

fun addClashCodes_body :: "u8 list \<Rightarrow> u8 list" where
  "addClashCodes_body [] = []"
| "addClashCodes_body (b # bs) =
     (if 0xfa \<le> b then [0xfa, b - 0xfa] @ addClashCodes_body bs
      else b # addClashCodes_body bs)"

definition advancedAddClashCodes :: "u8 list \<Rightarrow> (u8 list \<times> u16) option" where
  "advancedAddClashCodes pbuf_in =
    (if length pbuf_in < 2 then None
     else
       let body = addClashCodes_body (butlast (tl pbuf_in));
           out = hd pbuf_in # body @ [last pbuf_in]
       in Some (out, word_of_nat (length out)))"

section \<open>Protocol registry\<close>

text \<open>
  The handlers that \<open>protocolRxHandler\<close> can point to, the lines \<open>setProtocolType\<close> and
  the start handlers write with \<open>Log.info\<close>, and the state they act on: the handler
  pointer, the isolated supply (\<open>pwrEnablePin\<close>, \<open>True\<close> for HIGH), the UART
  (\<open>Serial1\<close>: the baud rate and framing it was begun with, \<open>None\<close> once ended) and the
  static \<open>currentId\<close> of \<open>setProtocolType\<close>.
\<close>

datatype rxHandler = RxGent | RxAdvanced | RxAdvancedAscii

datatype logLine =
    LogBaudRate u32 u8
  | LogStopping u8
  | LogStarting u8
  | LogNoProtocol
  | LogErrorStarting u8

datatype interfaceType_e = INTERFACE_NONE | INTERFACE_SERIAL | INTERFACE_USB | INTERFACE_ETHERNET

record panelInterface =
  protocolRxHandler :: "rxHandler option"
  pwrEnablePin :: bool
  Serial1 :: "(u32 \<times> u8) option"
  currentId :: u8
  panelSerialBaud :: u32
  serialFramingId :: u8
  logInfo :: "logLine list"

definition serialStart :: "rxHandler \<Rightarrow> panelInterface \<Rightarrow> panelInterface" where
  "serialStart h s =
     s\<lparr>protocolRxHandler := Some h,
        logInfo := logInfo s @ [LogBaudRate (panelSerialBaud s) (serialFramingId s)],
        pwrEnablePin := True,
        Serial1 := Some (panelSerialBaud s, serialFramingId s)\<rparr>"

definition serialStop :: "panelInterface \<Rightarrow> panelInterface" where
  "serialStop s = s\<lparr>protocolRxHandler := None, Serial1 := None, pwrEnablePin := False\<rparr>"

definition serialStartGent :: "panelInterface \<Rightarrow> panelInterface" where
  "serialStartGent = serialStart RxGent"
definition serialStopGent :: "panelInterface \<Rightarrow> panelInterface" where
  "serialStopGent = serialStop"
definition serialStartAdvanced :: "panelInterface \<Rightarrow> panelInterface" where
  "serialStartAdvanced = serialStart RxAdvanced"
definition serialStopAdvanced :: "panelInterface \<Rightarrow> panelInterface" where
  "serialStopAdvanced = serialStop"
definition serialStartAdvancedASCII :: "panelInterface \<Rightarrow> panelInterface" where
  "serialStartAdvancedASCII = serialStart RxAdvancedAscii"
definition serialStopAdvancedASCII :: "panelInterface \<Rightarrow> panelInterface" where
  "serialStopAdvancedASCII = serialStop"

text \<open>
  The handlers of Kentec, Siemens ASCII, Minerva ASCII, Notifier, Gent ASCII and Ziton
  have empty bodies.
\<close>

definition serialStub :: "panelInterface \<Rightarrow> panelInterface" where
  "serialStub s = s"

record protocolHandlerTable_t =
  pt_id :: nat
  pt_label :: string
  pt_type :: interfaceType_e
  protocolStartHandler :: "(panelInterface \<Rightarrow> panelInterface) option"
  protocolStopHandler :: "(panelInterface \<Rightarrow> panelInterface) option"

definition tableEntry ::
  "nat \<Rightarrow> string \<Rightarrow> interfaceType_e \<Rightarrow> (panelInterface \<Rightarrow> panelInterface) option
     \<Rightarrow> (panelInterface \<Rightarrow> panelInterface) option \<Rightarrow> protocolHandlerTable_t" where
  "tableEntry i l t start stop =
     \<lparr>pt_id = i, pt_label = l, pt_type = t, protocolStartHandler = start,
      protocolStopHandler = stop\<rparr>"

definition PROTOCOL_COUNT :: nat where "PROTOCOL_COUNT = 11"

definition protocolHandlerTable :: "protocolHandlerTable_t list" where
  "protocolHandlerTable = [
     tableEntry 0 ''None configured'' INTERFACE_NONE None None,
     tableEntry 1 ''Gent Vigilon Universal'' INTERFACE_SERIAL (Some serialStartGent) (Some serialStopGent),
     tableEntry 2 ''Kentec Syncro AS'' INTERFACE_SERIAL (Some serialStub) (Some serialStub),
     tableEntry 3 ''Siemens Cerberus CS1140 ASCII'' INTERFACE_SERIAL (Some serialStub) (Some serialStub),
     tableEntry 4 ''Tyco Minerva ASCII'' INTERFACE_SERIAL (Some serialStub) (Some serialStub),
     tableEntry 5 ''Advanced MXPro BMS I/F'' INTERFACE_SERIAL (Some serialStartAdvanced) (Some serialStopAdvanced),
     tableEntry 6 ''Notifier ID3000'' INTERFACE_SERIAL (Some serialStub) (Some serialStub),
     tableEntry 7 ''Gent Vigilon ASCII'' INTERFACE_SERIAL (Some serialStub) (Some serialStub),
     tableEntry 8 ''Ziton ZP3'' INTERFACE_SERIAL (Some serialStub) (Some serialStub),
     tableEntry 9 ''Reserved'' INTERFACE_NONE None None,
     tableEntry 10 ''Advanced MXPro ASCII'' INTERFACE_SERIAL (Some serialStartAdvancedASCII) (Some serialStopAdvancedASCII)]"

text \<open>
  \<open>setProtocolType\<close>.  The table is indexed by \<open>currentId\<close> and by \<open>Id\<close> with no check;
  an index of \<open>PROTOCOL_COUNT\<close> or more is a fault.
\<close>

definition stopCurrent :: "panelInterface \<Rightarrow> panelInterface" where
  "stopCurrent s =
    (case protocolStopHandler (protocolHandlerTable ! unat (currentId s)) of
       None \<Rightarrow> s
     | Some stop \<Rightarrow> (stop s)\<lparr>logInfo := logInfo (stop s) @ [LogStopping (currentId s)]\<rparr>)"

definition startNew :: "u8 \<Rightarrow> panelInterface \<Rightarrow> panelInterface" where
  "startNew newId s =
    (case protocolStartHandler (protocolHandlerTable ! unat newId) of
       Some start \<Rightarrow> start (s\<lparr>logInfo := logInfo s @ [LogStarting newId]\<rparr>)
     | None \<Rightarrow>
         if newId = 0 then s\<lparr>logInfo := logInfo s @ [LogNoProtocol]\<rparr>
         else s\<lparr>logInfo := logInfo s @ [LogErrorStarting newId, LogNoProtocol]\<rparr>)"

definition setProtocolType :: "u8 \<Rightarrow> panelInterface \<Rightarrow> fault + panelInterface" where
  "setProtocolType newId s =
    (if PROTOCOL_COUNT \<le> unat (currentId s) \<or> PROTOCOL_COUNT \<le> unat newId
     then Inl ProtocolIdOutOfRange
     else Inr ((startNew newId (stopCurrent s))\<lparr>currentId := newId\<rparr>))"

text \<open>
  The interface as \<open>setup()\<close> leaves it before its call of \<open>setProtocolType\<close>: no
  handler, the isolated supply switched on, the UART not begun, \<open>currentId = 0\<close>.
\<close>

definition panelInterface0 :: panelInterface where
  "panelInterface0 = \<lparr>protocolRxHandler = None, pwrEnablePin = True, Serial1 = None,
     currentId = 0, panelSerialBaud = 9600, serialFramingId = 0, logInfo = []\<rparr>"

text \<open>What an observer of the interface sees, and how often handlers were invoked.\<close>

definition observable :: "panelInterface \<Rightarrow> rxHandler option \<times> u8 \<times> bool \<times> (u32 \<times> u8) option" where
  "observable s = (protocolRxHandler s, currentId s, pwrEnablePin s, Serial1 s)"

fun isStopping :: "logLine \<Rightarrow> bool" where
  "isStopping (LogStopping i) = True"
| "isStopping l = False"

fun isStarting :: "logLine \<Rightarrow> bool" where
  "isStarting (LogStarting i) = True"
| "isStarting l = False"

definition stopCalls :: "panelInterface \<Rightarrow> nat" where
  "stopCalls s = length (filter isStopping (logInfo s))"

definition startCalls :: "panelInterface \<Rightarrow> nat" where
  "startCalls s = length (filter isStarting (logInfo s))"

definition hasStart :: "u8 \<Rightarrow> bool" where
  "hasStart newId = (protocolStartHandler (protocolHandlerTable ! unat newId) \<noteq> None)"

definition hasStop :: "u8 \<Rightarrow> bool" where
  "hasStop newId = (protocolStopHandler (protocolHandlerTable ! unat newId) \<noteq> None)"

text \<open>\<open>setProtocolType\<close> called twice in a row.\<close>

definition setProtocolTypeTwice :: "u8 \<Rightarrow> panelInterface \<Rightarrow> fault + panelInterface" where
  "setProtocolTypeTwice newId s =
    (case setProtocolType newId s of Inl e \<Rightarrow> Inl e | Inr s1 \<Rightarrow> setProtocolType newId s1)"

section \<open>Invariants and the predicates of the specification\<close>

text \<open>
  The first \<open>n\<close> bytes of the receive buffer, and the 16-bit sum of a list of bytes.
\<close>

definition frameOf :: "(nat \<Rightarrow> u8) \<Rightarrow> nat \<Rightarrow> u8 list" where
  "frameOf buf n = map buf [0..<n]"

definition sum16 :: "u8 list \<Rightarrow> u16" where
  "sum16 bs = foldl (\<lambda>a b. a + ucast b) 0 bs"

text \<open>
  A forwarded Gent frame is well formed when it has 59 bytes, its event pair is one of
  the permitted ones and neither ACK nor NAK, and bytes 57 and 58 are the high and the
  low byte of the sum of bytes 0 to 56.
\<close>

definition gentEventPair :: "u8 \<Rightarrow> u8 \<Rightarrow> bool" where
  "gentEventPair msb lsb =
    ((msb = 0 \<and> 1 \<le> lsb \<and> lsb \<le> 5) \<or> (msb = 2 \<and> (lsb = 1 \<or> lsb = 2))
     \<or> ((msb = 4 \<or> msb = 5 \<or> msb = 7 \<or> msb = 9 \<or> msb = 10 \<or> msb = 18)
         \<and> lsb \<noteq> ASCII_ACK \<and> lsb \<noteq> ASCII_NAK))"

definition gentFrameOk :: "u8 list \<Rightarrow> bool" where
  "gentFrameOk f =
    (length f = 59 \<and> gentEventPair (f ! 0) (f ! 1)
     \<and> f ! 57 = ucast (drop_bit 8 (sum16 (take 57 f)))
     \<and> f ! 58 = ucast (sum16 (take 57 f)))"

text \<open>
  The invariant of \<open>serialRxGent\<close>: every forwarded frame is well formed, and in each
  state the statics agree with the buffer (\<open>gentCtl\<close>): the index counts the bytes
  stored, the running sum is the sum of the bytes of the body stored so far, and in
  state 4 the first checksum byte stored is the high byte of the sum.
\<close>

definition gentBody :: "gateway \<Rightarrow> bool" where
  "gentBody s = (rxChecksum s = sum16 (frameOf (serialRxBuffer s) 57)
     \<and> gentEventPair (serialRxBuffer s 0) (serialRxBuffer s 1))"

definition gentCtl :: "gateway \<Rightarrow> bool" where
  "gentCtl s =
    (if serialRxState s = 1 then
       unat (gent_i s) = 1 \<and> rxChecksum s = sum16 (frameOf (serialRxBuffer s) 1)
     else if serialRxState s = 2 then
       2 \<le> unat (gent_i s) \<and> unat (gent_i s) \<le> 56 \<and> rxExpectedLen s = 56
       \<and> rxChecksum s = sum16 (frameOf (serialRxBuffer s) (unat (gent_i s)))
       \<and> gentEventPair (serialRxBuffer s 0) (serialRxBuffer s 1)
     else if serialRxState s = 3 then
       unat (gent_i s) = 2 \<or> (unat (gent_i s) = 57 \<and> gentBody s)
     else if serialRxState s = 4 then
       unat (gent_i s) = 3
       \<or> (unat (gent_i s) = 58 \<and> gentBody s
          \<and> serialRxBuffer s 57 = ucast (drop_bit 8 (rxChecksum s)))
     else True)"

definition gentInv :: "gateway \<Rightarrow> bool" where
  "gentInv s = (list_all gentFrameOk (forwarded s) \<and> gentCtl s)"

text \<open>
  The control part of the ASCII parser's state: the state number, the characters of the
  line so far, the lines so far and the bytes in the buffer.
\<close>

definition asciiShape :: "u8 \<Rightarrow> nat \<Rightarrow> nat \<Rightarrow> nat \<Rightarrow> gateway \<Rightarrow> bool" where
  "asciiShape st cc lc len s =
    (serialRxState s = st \<and> unat (lineCharCount s) = cc \<and> unat (lineCount s) = lc
     \<and> unat (serialRxLength s) = len)"

text \<open>
  Packet validity as the specification words it.  \<open>specChain buf bound off\<close>: from
  offset \<open>off\<close> the bytes parse as a chain of \<open>{identifier code, length}\<close> sub-messages;
  every code is one of the seven known codes, every length advances the offset without
  passing \<open>bound\<close>, and the chain ends at the code 0xF0.  \<open>specValid buf len\<close>: the packet
  of \<open>len\<close> bytes has at least 12 bytes, the CRC over bytes 1 to \<open>len - 4\<close>, started from
  0xFF/0xFF, equals the stored bytes (high, then low), byte 1 is 0x80, and the chain from
  the sixth byte holds with bound \<open>len - 4\<close>.
\<close>

function specChain :: "(nat \<Rightarrow> u8) \<Rightarrow> nat \<Rightarrow> nat \<Rightarrow> bool" where
  "specChain buf bound off =
     (if buf off \<in> set idCodes \<and> 0 < unat (buf (off + 1))
         \<and> off + unat (buf (off + 1)) \<le> bound
      then (if buf (off + unat (buf (off + 1))) = 0xf0 then True
            else specChain buf bound (off + unat (buf (off + 1))))
      else False)"
  by pat_completeness auto
termination
  by (relation "measure (\<lambda>(buf, bound, off). bound - off)") auto

declare specChain.simps [simp del]

definition specValid :: "(nat \<Rightarrow> u8) \<Rightarrow> nat \<Rightarrow> bool" where
  "specValid buf len =
    (12 \<le> len
     \<and> advancedCrcUpdate (map buf [1..<len - 3]) (0xff, 0xff) = (buf (len - 3), buf (len - 2))
     \<and> buf 1 = 0x80
     \<and> specChain buf (len - 4) 5)"

text \<open>
  The ids of the published records, and the ids 1, 2, 3, ... modulo 256 of \<open>n\<close> records.
  The invariant of the rolling id: the counter holds the id of the next record, the
  published records carry the rolling ids in order, and every frame forwarded so far has
  its published record.
\<close>

definition publishedIds :: "gateway \<Rightarrow> u32 list" where
  "publishedIds s = map (tm_uniqueTransferId \<circ> fst) (published s)"

definition rollingIds :: "nat \<Rightarrow> u32 list" where
  "rollingIds n = map (\<lambda>k. word_of_nat ((k + 1) mod 256)) [0..<n]"

definition idOk :: "u8 \<Rightarrow> (nimbusTransferMessage_t \<times> nat) list \<Rightarrow> u8 list list \<Rightarrow> bool" where
  "idOk counter ps fw =
    (counter = word_of_nat (length ps + 1)
     \<and> map (tm_uniqueTransferId \<circ> fst) ps = rollingIds (length ps)
     \<and> length ps = length fw)"

definition idInv :: "gateway \<Rightarrow> bool" where
  "idInv s = idOk (uniqueTransferId s) (published s) (forwarded s)"

section \<open>Concrete states and inputs\<close>

text \<open>
  The gateway after reset with a given verbose flag and protocol id; a frame of 50 bytes
  in the receive buffer with protocol id 5 (Advanced) configured; the Advanced BMS parser
  in the middle of a frame (start byte stored, one byte in the buffer); a state that holds
  a received packet.
\<close>

definition configured :: "bool \<Rightarrow> u8 \<Rightarrow> gateway" where
  "configured v p = gateway0\<lparr>verbose := v, protocolId := p\<rparr>"

definition frame50 :: gateway where
  "frame50 = gateway0\<lparr>serialRxLength := 50, protocolId := 5\<rparr>"

definition midFrame :: gateway where
  "midFrame = gateway0\<lparr>serialRxState := 1, serialRxBuffer := (\<lambda>_. 0)(0 := 0xfe),
     serialRxLength := 1\<rparr>"

definition received :: "u8 list \<Rightarrow> gateway" where
  "received bs = gateway0\<lparr>serialRxState := 1,
     serialRxBuffer := (\<lambda>i. if i < length bs then bs ! i else 0),
     serialRxLength := word_of_nat (length bs)\<rparr>"

text \<open>Scenario C: the bytes of \<open>"LINE1\r\n\r\n"\<close>, and of \<open>"LINE1\r\n"\<close> alone.\<close>

definition line1Input :: "u8 list" where
  "line1Input = [0x4C, 0x49, 0x4E, 0x45, 0x31, 0x0D, 0x0A, 0x0D, 0x0A]"

definition line1Text :: "u8 list" where
  "line1Text = [0x4C, 0x49, 0x4E, 0x45, 0x31, 0x0D, 0x0A]"

text \<open>
  An ASCII message of six lines, each of 40 letters \<open>A\<close> and carriage return, line feed
  (42 characters, the fixed length of lines two to four of a panel message), ended by a
  blank line: 254 bytes, within the parser's bounds of 8 lines and 312 bytes.
\<close>

definition asciiLine40 :: "u8 list" where
  "asciiLine40 = replicate 40 0x41 @ [0x0d]"

definition asciiMessage6 :: "u8 list" where
  "asciiMessage6 = concat (replicate 6 (asciiLine40 @ [0x0a])) @ [0x0d, 0x0a]"

text \<open>A Gent event frame: Fire (9, 1), 55 bytes of zero, the sum 0x000A.\<close>

definition gentFireFrame :: "u8 list" where
  "gentFireFrame = 0x09 # 0x01 # replicate 55 0 @ [0x00, 0x0a]"

text \<open>
  Inputs for the Advanced BMS parser.  The start byte followed by \<open>n\<close> times the stuffed
  pair \<open>FA 00\<close>.  Two packets with correct CRC: in the first the Device Status
  sub-message has length byte 0; in the second it has length byte 0xFF (on the wire
  \<open>FA 05\<close>) and the sequence number is 0xF0.
\<close>

definition clashFlood :: "nat \<Rightarrow> u8 list" where
  "clashFlood n = 0xfe # concat (replicate n [0xfa, 0x00])"

definition zeroLengthPacket :: "u8 list" where
  "zeroLengthPacket = [0xfe, 0x80, 0x00, 0x00, 0x01, 0x0a, 0x00, 0x00, 0xf0, 0x76, 0x37, 0xff]"

definition wrapPacket :: "u8 list" where
  "wrapPacket = [0xfe, 0x80, 0x00, 0x00, 0xf0, 0x0a, 0xff, 0x00, 0xf0, 0x3b, 0xd2, 0xff]"

text \<open>The interface with Gent (id 1) running: the state \<open>serialStartGent\<close> leaves.\<close>

definition gentRunning :: panelInterface where
  "gentRunning = \<lparr>protocolRxHandler = Some RxGent, pwrEnablePin = True,
     Serial1 = Some (9600, 0), currentId = 1, panelSerialBaud = 9600, serialFramingId = 0,
     logInfo = []\<rparr>"

section \<open>Properties of the transfer encoder\<close>

lemma serialTxEventToNimbus_overrun:
  "244 < unat (serialRxLength s) \<Longrightarrow> serialTxEventToNimbus s = Inl EventDataOverrun"
  by (simp add: serialTxEventToNimbus_def Let_def split: prod.splits)

lemma unat_eventLength: "n \<le> 244 \<Longrightarrow> unat (word_of_nat (n + 8) :: u8) = n + 8"
  unfolding unat_of_nat by simp

lemma unat_transferLength: "unat (word_of_nat (n + 8) + 4 + 12 :: u8) = (n + 24) mod 256"
proof -
  have "(word_of_nat (n + 8) + 4 + 12 :: u8) = word_of_nat (n + 24)" by simp
  also have "unat (word_of_nat (n + 24) :: u8) = (n + 24) mod 256"
    by (simp only: unat_of_nat) simp
  finally show ?thesis .
qed

text \<open>
  C2, as the code has it.  For a frame of \<open>L \<le> 244\<close> bytes and configured protocol id
  \<open>p\<close>, the encoder returns with: EventRecord.Type \<open>= p\<close>; EventRecord.Length
  \<open>= [L + 8, 0, 0]\<close>; TransferRecord.Type \<open>= 0x83\<close>; TransferRecord.Length
  \<open>= [(L + 24) mod 256, 0, 0]\<close>, that is the EventRecord length plus 16 (4 for the
  event's own type and length bytes, 12 for the transfer id and time stamp), low byte
  only; the record carries the value of the rolling counter, and the counter is
  incremented by exactly 1.
\<close>

theorem transfer_encoder_fields:
  assumes "unat (serialRxLength s) \<le> 244"
  shows "\<exists>s'. serialTxEventToNimbus s = Inr s'
    \<and> ev_Type (eventMessage s') = protocolId s
    \<and> map unat (ev_Length (eventMessage s')) = [unat (serialRxLength s) + 8, 0, 0]
    \<and> tm_Type (nimbusTransferMessage s') = 0x83
    \<and> map unat (tm_Length (nimbusTransferMessage s'))
        = [(unat (serialRxLength s) + 24) mod 256, 0, 0]
    \<and> tm_uniqueTransferId (nimbusTransferMessage s') = ucast (uniqueTransferId s)
    \<and> uniqueTransferId s' = uniqueTransferId s + 1"
proof -
  let ?n = "unat (serialRxLength s)"
  have e: "unat (word_of_nat (?n + 8) :: u8) = ?n + 8"
    using assms by (rule unat_eventLength)
  have t: "unat (word_of_nat (?n + 8) + 4 + 12 :: u8) = (?n + 24) mod 256"
    by (rule unat_transferLength)
  have w: "(word_of_nat ?n :: u8) = ucast (serialRxLength s)"
    by simp
  show ?thesis
    using assms e t
    by (simp add: serialTxEventToNimbus_def Let_def Time_now_def w del: of_nat_unat
        split: prod.splits)
qed

theorem transfer_encoder_fields_witness:
  "unat (serialRxLength frame50) \<le> 244
   \<and> (\<exists>s'. serialTxEventToNimbus frame50 = Inr s'
        \<and> ev_Type (eventMessage s') = 5
        \<and> map unat (ev_Length (eventMessage s')) = [58, 0, 0]
        \<and> tm_Type (nimbusTransferMessage s') = 0x83
        \<and> map unat (tm_Length (nimbusTransferMessage s')) = [74, 0, 0]
        \<and> tm_uniqueTransferId (nimbusTransferMessage s') = 1
        \<and> uniqueTransferId s' = 2)"
proof -
  have h: "unat (serialRxLength frame50) \<le> 244"
    by (simp add: frame50_def gateway0_def)
  show ?thesis
    using h transfer_encoder_fields [OF h]
    by (simp add: frame50_def gateway0_def)
qed

text \<open>
  C2 as the specification states it fails: for \<open>L = 50\<close> and \<open>p = 5\<close> the first length
  byte of the TransferRecord is 74, not the EventRecord length plus 4 (62).
\<close>

theorem transfer_length_counterexample:
  "resultOf (ev_Length \<circ> eventMessage) (serialTxEventToNimbus frame50) = Some [58, 0, 0]
   \<and> resultOf (tm_Length \<circ> nimbusTransferMessage) (serialTxEventToNimbus frame50) = Some [74, 0, 0]
   \<and> (74 :: u8) \<noteq> 58 + 4"
  by (simp add: resultOf_def frame50_def gateway0_def serialTxEventToNimbus_def Let_def
      Time_now_def)

section \<open>Properties of the line-oriented ASCII parser\<close>

lemmas ascii_defs = serialRxAdvancedAscii_def asciiIdle_def asciiCollect_def asciiRecover_def rxStore_def
  ADVANCED_ASCII_MAX_LINES_def ADVANCED_ASCII_LINE_LENGTH_def ADVANCED_ASCII_MAX_LENGTH_def

lemma u8_succ: "unat (x :: u8) < 255 \<Longrightarrow> unat (x + 1) = unat x + 1"
  by (simp add: unat_word_ariths)

lemma u16_succ: "unat (x :: u16) < 65535 \<Longrightarrow> unat (x + 1) = unat x + 1"
  by (simp add: unat_word_ariths)

lemma feed_append:
  "feed h (xs @ ys) s = (case feed h xs s of Inl e \<Rightarrow> Inl e | Inr s1 \<Rightarrow> feed h ys s1)"
  by (induction xs arbitrary: s) (auto split: sum.splits)

lemma feed_append_Inr: "feed h xs s = Inr s1 \<Longrightarrow> feed h (xs @ ys) s = feed h ys s1"
  by (simp add: feed_append)

lemma asciiCollect_plain:
  assumes "asciiShape 1 cc lc len s" "c \<noteq> 0x0a" "cc < 42" "len < 311"
  shows "\<exists>s'. serialRxAdvancedAscii c s = Inr s' \<and> asciiShape 1 (cc + 1) lc (len + 1) s'
           \<and> previousChar s' = c"
  using assms
  by (simp add: asciiShape_def ascii_defs word_less_nat_alt word_le_nat_alt u8_succ u16_succ)

lemma asciiIdle_plain:
  assumes "asciiShape 0 cc lc len s" "c \<noteq> 0x0a" "cc < 42" "len < 512"
  shows "\<exists>s'. serialRxAdvancedAscii c s = Inr s' \<and> asciiShape 0 (cc + 1) lc (len + 1) s'
           \<and> previousChar s' = c"
  using assms
  by (simp add: asciiShape_def ascii_defs word_less_nat_alt word_le_nat_alt u8_succ u16_succ)

lemma asciiCollect_plains:
  "asciiShape 1 cc lc len s \<Longrightarrow> 0x0a \<notin> set cs \<Longrightarrow> cc + length cs \<le> 42
    \<Longrightarrow> len + length cs \<le> 311
    \<Longrightarrow> \<exists>s'. feed serialRxAdvancedAscii cs s = Inr s'
          \<and> asciiShape 1 (cc + length cs) lc (len + length cs) s'
          \<and> previousChar s' = last (previousChar s # cs)"
proof (induction cs arbitrary: s cc len)
  case Nil
  then show ?case by simp
next
  case (Cons c cs)
  from Cons.prems obtain s1 where s1: "serialRxAdvancedAscii c s = Inr s1"
      "asciiShape 1 (cc + 1) lc (len + 1) s1" "previousChar s1 = c"
    using asciiCollect_plain [of cc lc len s c] by auto
  from Cons.IH [OF s1(2)] Cons.prems obtain s' where
      "feed serialRxAdvancedAscii cs s1 = Inr s'"
      "asciiShape 1 (cc + 1 + length cs) lc (len + 1 + length cs) s'"
      "previousChar s' = last (previousChar s1 # cs)"
    by auto
  with s1 show ?case by (auto simp: add.assoc)
qed

lemma asciiIdle_plains:
  "asciiShape 0 cc lc len s \<Longrightarrow> 0x0a \<notin> set cs \<Longrightarrow> cc + length cs \<le> 42
    \<Longrightarrow> len + length cs \<le> 512
    \<Longrightarrow> \<exists>s'. feed serialRxAdvancedAscii cs s = Inr s'
          \<and> asciiShape 0 (cc + length cs) lc (len + length cs) s'
          \<and> previousChar s' = last (previousChar s # cs)"
proof (induction cs arbitrary: s cc len)
  case Nil
  then show ?case by simp
next
  case (Cons c cs)
  from Cons.prems obtain s1 where s1: "serialRxAdvancedAscii c s = Inr s1"
      "asciiShape 0 (cc + 1) lc (len + 1) s1" "previousChar s1 = c"
    using asciiIdle_plain [of cc lc len s c] by auto
  from Cons.IH [OF s1(2)] Cons.prems obtain s' where
      "feed serialRxAdvancedAscii cs s1 = Inr s'"
      "asciiShape 0 (cc + 1 + length cs) lc (len + 1 + length cs) s'"
      "previousChar s' = last (previousChar s1 # cs)"
    by auto
  with s1 show ?case by (auto simp: add.assoc)
qed

text \<open>End of a non-blank line.\<close>

lemma asciiIdle_newline:
  assumes "asciiShape 0 cc lc len s" "2 \<le> cc" "cc < 255" "len < 512"
  shows "\<exists>s'. serialRxAdvancedAscii 0x0a s = Inr s' \<and> asciiShape 1 0 1 (len + 1) s'"
  using assms
  by (simp add: asciiShape_def ascii_defs word_less_nat_alt word_le_nat_alt u8_succ u16_succ)

lemma asciiCollect_newline:
  assumes "asciiShape 1 cc lc len s" "2 \<le> cc" "cc < 255" "lc < 8" "len < 512"
  shows "\<exists>s'. serialRxAdvancedAscii 0x0a s = Inr s' \<and> asciiShape 1 0 (lc + 1) (len + 1) s'"
  using assms
  by (simp add: asciiShape_def ascii_defs word_less_nat_alt word_le_nat_alt u8_succ u16_succ Let_def)

text \<open>The blank line that ends a message of more than 244 bytes.\<close>

lemma asciiCollect_blank_overrun:
  assumes "asciiShape 1 1 lc len s" "previousChar s = 0x0d" "244 \<le> len" "len < 512"
  shows "serialRxAdvancedAscii 0x0a s = Inl EventDataOverrun"
proof -
  have "lineCharCount s = 1"
    using assms(1) by (simp add: asciiShape_def word_unat_eq_iff)
  then show ?thesis
    using assms
    by (simp add: asciiShape_def ascii_defs word_less_nat_alt word_le_nat_alt u16_succ
        serialTxEventToNimbus_overrun)
qed

lemma asciiCollect_line40:
  assumes sh: "asciiShape 1 0 lc n s" and lc: "lc < 8" and n: "n \<le> 270"
    and lc': "lc' = lc + 1" and n': "n' = n + 42"
  shows "\<exists>s'. feed serialRxAdvancedAscii (asciiLine40 @ [0x0a]) s = Inr s' \<and> asciiShape 1 0 lc' n' s'"
proof -
  have plain: "0x0a \<notin> set asciiLine40" and len: "length asciiLine40 = 41"
    by (auto simp: asciiLine40_def)
  obtain s1 where s1: "feed serialRxAdvancedAscii asciiLine40 s = Inr s1"
      "asciiShape 1 41 lc (n + 41) s1"
    using asciiCollect_plains [OF sh plain] n len by auto
  obtain s2 where "serialRxAdvancedAscii 0x0a s1 = Inr s2" "asciiShape 1 0 (lc + 1) (n + 41 + 1) s2"
    using asciiCollect_newline [OF s1(2)] lc n by fastforce
  with s1 lc' n' show ?thesis by (simp add: feed_append add.commute)
qed

text \<open>
  C3 fails on the code.  The ASCII parser forwards the six-line message, 254 bytes long;
  \<open>serialTxEventToNimbus\<close> copies it into the 244 bytes of \<open>eventMessage.Data\<close> and
  leaves the record.
\<close>

theorem ascii_message_overruns_event_record:
  "feed serialRxAdvancedAscii asciiMessage6 gateway0 = Inl EventDataOverrun"
proof -
  let ?h = "serialRxAdvancedAscii"
  let ?line = "asciiLine40 @ [0x0a]"
  have plain: "0x0a \<notin> set asciiLine40" and len: "length asciiLine40 = 41"
    by (auto simp: asciiLine40_def)
  have s0: "asciiShape 0 0 0 0 gateway0"
    by (simp add: asciiShape_def gateway0_def)
  obtain a1 where a1: "feed ?h asciiLine40 gateway0 = Inr a1" "asciiShape 0 41 0 41 a1"
    using asciiIdle_plains [OF s0 plain] len by auto
  obtain s1 where s1: "?h 0x0a a1 = Inr s1" "asciiShape 1 0 1 42 s1"
    using asciiIdle_newline [OF a1(2)] by auto
  have l1: "feed ?h ?line gateway0 = Inr s1"
    using a1 s1 by (simp add: feed_append)
  obtain s2 where s2: "feed ?h ?line s1 = Inr s2" "asciiShape 1 0 2 84 s2"
    using asciiCollect_line40 [OF s1(2), of 2 84] by auto
  obtain s3 where s3: "feed ?h ?line s2 = Inr s3" "asciiShape 1 0 3 126 s3"
    using asciiCollect_line40 [OF s2(2), of 3 126] by auto
  obtain s4 where s4: "feed ?h ?line s3 = Inr s4" "asciiShape 1 0 4 168 s4"
    using asciiCollect_line40 [OF s3(2), of 4 168] by auto
  obtain s5 where s5: "feed ?h ?line s4 = Inr s5" "asciiShape 1 0 5 210 s5"
    using asciiCollect_line40 [OF s4(2), of 5 210] by auto
  obtain s6 where s6: "feed ?h ?line s5 = Inr s6" "asciiShape 1 0 6 252 s6"
    using asciiCollect_line40 [OF s5(2), of 6 252] by auto
  obtain s7 where s7: "?h 0x0d s6 = Inr s7" "asciiShape 1 1 6 253 s7" "previousChar s7 = 0x0d"
    using asciiCollect_plain [OF s6(2), where c = "0x0d"] by auto
  have s8: "?h 0x0a s7 = Inl EventDataOverrun"
    using asciiCollect_blank_overrun [OF s7(2,3)] by simp
  have "feed ?h asciiMessage6 gateway0
      = feed ?h (?line @ ?line @ ?line @ ?line @ ?line @ ?line @ [0x0d, 0x0a]) gateway0"
    by (simp add: asciiMessage6_def eval_nat_numeral)
  also have "\<dots> = feed ?h (?line @ ?line @ ?line @ ?line @ ?line @ [0x0d, 0x0a]) s1"
    by (rule feed_append_Inr [OF l1])
  also have "\<dots> = feed ?h (?line @ ?line @ ?line @ ?line @ [0x0d, 0x0a]) s2"
    by (rule feed_append_Inr [OF s2(1)])
  also have "\<dots> = feed ?h (?line @ ?line @ ?line @ [0x0d, 0x0a]) s3"
    by (rule feed_append_Inr [OF s3(1)])
  also have "\<dots> = feed ?h (?line @ ?line @ [0x0d, 0x0a]) s4"
    by (rule feed_append_Inr [OF s4(1)])
  also have "\<dots> = feed ?h (?line @ [0x0d, 0x0a]) s5"
    by (rule feed_append_Inr [OF s5(1)])
  also have "\<dots> = feed ?h [0x0d, 0x0a] s6"
    by (rule feed_append_Inr [OF s6(1)])
  also have "\<dots> = Inl EventDataOverrun"
    by (simp add: s7(1) s8)
  finally show ?thesis .
qed

text \<open>
  C4, as the code has it.  From Idle, the input \<open>"LINE1\r\n\r\n"\<close> causes exactly one
  message to be forwarded and published; its content is the whole input, 9 bytes: the
  blank line that ends the message is part of what is forwarded.  The parser is back in
  Idle with an empty buffer.
\<close>

theorem line1_forwarded_whole:
  "resultOf forwarded (feed serialRxAdvancedAscii line1Input gateway0) = Some [line1Input]
   \<and> length line1Input = 9
   \<and> resultOf (length \<circ> published) (feed serialRxAdvancedAscii line1Input gateway0) = Some 1
   \<and> resultOf serialRxState (feed serialRxAdvancedAscii line1Input gateway0) = Some 0
   \<and> resultOf serialRxLength (feed serialRxAdvancedAscii line1Input gateway0) = Some 0"
  by (simp add: line1Input_def gateway0_def ascii_defs resultOf_def serialTxEventToNimbus_def
      Let_def Time_now_def Base64_encode_ok_def upt_conv_Cons)

text \<open>C4 as the specification states it fails: what is forwarded is not \<open>"LINE1\r\n"\<close>.\<close>

theorem line1_forwarded_counterexample:
  "resultOf forwarded (feed serialRxAdvancedAscii line1Input gateway0) \<noteq> Some [line1Text]"
  by (simp add: line1Input_def line1Text_def gateway0_def ascii_defs resultOf_def
      serialTxEventToNimbus_def Let_def Time_now_def upt_conv_Cons)

section \<open>Properties of the checksummed parser\<close>

lemma sum16_snoc: "sum16 (bs @ [b]) = sum16 bs + ucast b"
  by (simp add: sum16_def)

lemma frameOf_Suc: "frameOf buf (Suc n) = frameOf buf n @ [buf n]"
  by (simp add: frameOf_def)

lemma frameOf_upd: "n \<le> k \<Longrightarrow> frameOf (buf(k := c)) n = frameOf buf n"
  by (simp add: frameOf_def)

lemma serialTxEventToNimbus_forwards:
  assumes "unat (serialRxLength s) \<le> 244"
  shows "\<exists>s'. serialTxEventToNimbus s = Inr s'
     \<and> forwarded s' = forwarded s @ [frameOf (serialRxBuffer s) (unat (serialRxLength s))]
     \<and> serialRxState s' = serialRxState s \<and> gent_i s' = gent_i s"
  using assms
  by (simp add: serialTxEventToNimbus_def Let_def Time_now_def frameOf_def split: prod.splits)

lemma low_byte: "(ucast ((w :: u16) AND 0x00ff) :: u8) = ucast w"
proof -
  have m: "(0x00ff :: u16) = mask 8"
    by (simp add: mask_eq_exp_minus_1)
  show ?thesis
    unfolding m by (rule bit_word_eqI) (auto simp: bit_simps)
qed

lemma gentCtl_idle [simp]: "serialRxState s = 0 \<Longrightarrow> gentCtl s"
  by (simp add: gentCtl_def)

lemma frameOf_1: "frameOf buf (Suc 0) = [buf 0]"
  by (simp add: frameOf_def)

lemma frameOf_2: "frameOf buf 2 = [buf 0, buf 1]"
  by (simp add: frameOf_def upt_conv_Cons)

lemma sum16_1: "sum16 [a] = ucast a"
  by (simp add: sum16_def)

lemma sum16_2: "sum16 [a, b] = ucast a + ucast b"
  by (simp add: sum16_def)

lemma le6_not6: "(c :: u8) \<le> 6 \<Longrightarrow> c \<noteq> 6 \<Longrightarrow> c \<le> 5"
  by unat_arith

lemma gent_step0:
  assumes "gentInv s" "serialRxState s = 0"
  shows "\<exists>s'. serialRxGent c s = Inr s' \<and> gentInv s'"
  using assms
  by (simp add: serialRxGent_def gentInv_def gentCtl_def gentStore_def frameOf_1 sum16_1)

lemma gent_step1:
  assumes "gentInv s" "serialRxState s = 1"
  shows "\<exists>s'. serialRxGent c s = Inr s' \<and> gentInv s'"
proof -
  from assms have i: "unat (gent_i s) = 1" and ck: "rxChecksum s = ucast (serialRxBuffer s 0)"
    and fw: "list_all gentFrameOk (forwarded s)"
    by (simp_all add: gentInv_def gentCtl_def frameOf_1 sum16_1)
  from i have i1: "gent_i s = 1" by (simp add: word_unat_eq_iff)
  let ?s2 = "(gentStore c s)\<lparr>rxChecksum := rxChecksum (gentStore c s) + ucast c\<rparr>"
  have b: "serialRxBuffer ?s2 0 = serialRxBuffer s 0" "serialRxBuffer ?s2 1 = c"
    "gent_i ?s2 = 2" "rxChecksum ?s2 = sum16 (frameOf (serialRxBuffer ?s2) 2)" "forwarded ?s2 = forwarded s"
    by (simp_all add: gentStore_def i1 ck frameOf_2 sum16_2)
  consider (bad) "\<not> rxGentValidateEventPair ?s2"
    | (ack) "rxGentValidateEventPair ?s2" "c = ASCII_ACK \<or> c = ASCII_NAK"
    | (ev) "rxGentValidateEventPair ?s2" "c \<noteq> ASCII_ACK" "c \<noteq> ASCII_NAK"
    by blast
  then show ?thesis
  proof cases
    case bad
    then show ?thesis
      using assms(2) fw b by (simp add: serialRxGent_def Let_def gentInv_def)
  next
    case ack
    then show ?thesis
      using assms(2) fw b by (auto simp: serialRxGent_def Let_def gentInv_def gentCtl_def)
  next
    case ev
    have "gentEventPair (serialRxBuffer s 0) c"
      using ev b(1,2)
      by (auto simp: rxGentValidateEventPair_def gentEventPair_def Let_def ASCII_ACK_def
          ASCII_NAK_def le6_not6 split: if_splits)
    then show ?thesis
      using ev assms(2) fw b by (simp add: serialRxGent_def Let_def gentInv_def gentCtl_def)
  qed
qed

lemma gent_step2:
  assumes "gentInv s" "serialRxState s = 2"
  shows "\<exists>s'. serialRxGent c s = Inr s' \<and> gentInv s'"
proof -
  let ?i = "unat (gent_i s)"
  from assms have i: "2 \<le> ?i" "?i \<le> 56" and e: "rxExpectedLen s = 56"
    and ck: "rxChecksum s = sum16 (frameOf (serialRxBuffer s) ?i)"
    and pair: "gentEventPair (serialRxBuffer s 0) (serialRxBuffer s 1)"
    and fw: "list_all gentFrameOk (forwarded s)"
    by (simp_all add: gentInv_def gentCtl_def)
  have suc: "unat (gent_i s + 1) = Suc ?i"
    using i by (simp add: u8_succ)
  have fr: "frameOf ((serialRxBuffer s)(?i := c)) (Suc ?i) = frameOf (serialRxBuffer s) ?i @ [c]"
    by (simp add: frameOf_Suc frameOf_upd)
  have keep: "((serialRxBuffer s)(?i := c)) 0 = serialRxBuffer s 0"
    "((serialRxBuffer s)(?i := c)) (Suc 0) = serialRxBuffer s 1"
    using i by simp_all
  show ?thesis
  proof (cases "gent_i s < rxExpectedLen s")
    case True
    then have "?i < 56" using e by (simp add: word_less_nat_alt)
    then show ?thesis
      using True assms(2) fw e ck pair suc fr keep i
      by (simp add: serialRxGent_def Let_def gentInv_def gentCtl_def gentStore_def sum16_snoc)
  next
    case False
    then have "?i = 56" using e i by (simp add: word_less_nat_alt)
    then show ?thesis
      using False assms(2) fw e ck pair suc fr keep
      by (simp add: serialRxGent_def Let_def gentInv_def gentCtl_def gentStore_def sum16_snoc
          gentBody_def)
  qed
qed

lemma gent_step3:
  assumes "gentInv s" "serialRxState s = 3"
  shows "\<exists>s'. serialRxGent c s = Inr s' \<and> gentInv s'"
proof -
  let ?i = "unat (gent_i s)"
  from assms have fw: "list_all gentFrameOk (forwarded s)"
    and i: "?i = 2 \<or> (?i = 57 \<and> gentBody s)"
    by (simp_all add: gentInv_def gentCtl_def)
  have suc: "unat (gent_i s + 1) = Suc ?i"
    using i by (auto simp: u8_succ)
  show ?thesis
  proof (cases "c = ucast (drop_bit 8 (rxChecksum s))")
    case False
    then show ?thesis
      using assms(2) fw by (simp add: serialRxGent_def gentInv_def)
  next
    case True
    from i show ?thesis
    proof
      assume "?i = 2"
      then show ?thesis
        using True assms(2) fw suc
        by (simp add: serialRxGent_def gentInv_def gentCtl_def gentStore_def)
    next
      assume b: "?i = 57 \<and> gentBody s"
      then show ?thesis
        using True assms(2) fw suc
        by (simp add: serialRxGent_def gentInv_def gentCtl_def gentStore_def gentBody_def
            frameOf_upd)
    qed
  qed
qed

lemma frameOf_nth: "k < n \<Longrightarrow> frameOf buf n ! k = buf k"
  by (simp add: frameOf_def)

lemma take_frameOf: "m \<le> n \<Longrightarrow> take m (frameOf buf n) = frameOf buf m"
  by (simp add: frameOf_def take_map)

lemma length_frameOf: "length (frameOf buf n) = n"
  by (simp add: frameOf_def)

lemma gent_step4:
  assumes "gentInv s" "serialRxState s = 4"
  shows "\<exists>s'. serialRxGent c s = Inr s' \<and> gentInv s'"
proof -
  let ?i = "unat (gent_i s)"
  from assms have fw: "list_all gentFrameOk (forwarded s)"
    and i: "?i = 3 \<or> (?i = 58 \<and> gentBody s
              \<and> serialRxBuffer s 57 = ucast (drop_bit 8 (rxChecksum s)))"
    by (simp_all add: gentInv_def gentCtl_def)
  show ?thesis
  proof (cases "c = ucast (rxChecksum s AND 0x00ff)")
    case False
    then show ?thesis
      using assms(2) fw by (simp add: serialRxGent_def gentInv_def)
  next
    case True
    from i show ?thesis
    proof
      assume "?i = 3"
      then have "gent_i s = 3" by (simp add: word_unat_eq_iff)
      then show ?thesis
        using True assms(2) fw
        by (simp add: serialRxGent_def gentInv_def gentStore_def Let_def)
    next
      assume b: "?i = 58 \<and> gentBody s
        \<and> serialRxBuffer s 57 = ucast (drop_bit 8 (rxChecksum s))"
      then have i58: "gent_i s = 58" by (simp add: word_unat_eq_iff)
      let ?buf = "(serialRxBuffer s)(58 := c)"
      let ?s1 = "(gentStore c s)\<lparr>serialRxLength := ucast (gent_i (gentStore c s))\<rparr>"
      have s1: "serialRxBuffer ?s1 = ?buf" "unat (serialRxLength ?s1) = 59"
        "forwarded ?s1 = forwarded s"
        by (simp_all add: gentStore_def i58)
      then obtain s2 where s2: "serialTxEventToNimbus ?s1 = Inr s2"
        "forwarded s2 = forwarded s @ [frameOf ?buf 59]"
        using serialTxEventToNimbus_forwards [of ?s1] by auto
      have ok: "gentFrameOk (frameOf ?buf 59)"
        using b True
        by (simp add: gentFrameOk_def length_frameOf frameOf_nth take_frameOf frameOf_upd
            gentBody_def low_byte)
      have "serialRxGent c s = Inr (s2\<lparr>serialRxState := 0\<rparr>)"
        using True assms(2) s2(1)
        by (simp add: serialRxGent_def Let_def serialProcessGent_def gentStore_def i58)
      then show ?thesis
        using fw s2(2) ok by (simp add: gentInv_def)
    qed
  qed
qed

lemma gent_step:
  assumes "gentInv s"
  shows "\<exists>s'. serialRxGent c s = Inr s' \<and> gentInv s'"
proof -
  consider "serialRxState s = 0" | "serialRxState s = 1" | "serialRxState s = 2"
    | "serialRxState s = 3" | "serialRxState s = 4"
    | "serialRxState s \<noteq> 0" "serialRxState s \<noteq> 1" "serialRxState s \<noteq> 2"
      "serialRxState s \<noteq> 3" "serialRxState s \<noteq> 4"
    by blast
  then show ?thesis
  proof cases
    case 6
    then show ?thesis
      using assms by (simp add: serialRxGent_def gentInv_def gentCtl_def)
  qed (use assms gent_step0 gent_step1 gent_step2 gent_step3 gent_step4 in blast)+
qed

lemma gent_feed:
  "gentInv s \<Longrightarrow> \<exists>s'. feed serialRxGent bs s = Inr s' \<and> gentInv s'"
proof (induction bs arbitrary: s)
  case Nil
  then show ?case by simp
next
  case (Cons c cs)
  from gent_step [OF Cons.prems] obtain s1 where "serialRxGent c s = Inr s1" "gentInv s1"
    by blast
  with Cons.IH [of s1] show ?case by simp
qed

lemma gentInv0: "gentInv gateway0"
  by (simp add: gentInv_def gateway0_def)


text \<open>A Fire event frame (event pair 9, 1) with the right checksum is forwarded as it is.\<close>

lemma gent_event_frame_forwarded:
  "resultOf forwarded (feed serialRxGent gentFireFrame gateway0) = Some [gentFireFrame]"
  by code_simp

text \<open>
  C7.  Whatever bytes the Gent parser is fed after reset, it returns, and every frame it
  has forwarded is a full 59-byte event frame whose two checksum bytes are the high and
  low byte of the 16-bit sum of the 57 bytes before them, with an event pair that is
  neither ACK nor NAK.  On the input 00 06 00 06 the pair is taken as an ACK (state 3
  after two bytes, running sum 6), both checksum bytes are accepted (4 bytes stored),
  and nothing is forwarded.
\<close>

theorem gent_forwards_only_verified_event_frames:
  "(\<exists>s. feed serialRxGent bs gateway0 = Inr s \<and> list_all gentFrameOk (forwarded s))
   \<and> resultOf serialRxState (feed serialRxGent [0x00, 0x06] gateway0) = Some 3
   \<and> resultOf rxChecksum (feed serialRxGent [0x00, 0x06] gateway0) = Some 6
   \<and> resultOf serialRxState (feed serialRxGent [0x00, 0x06, 0x00, 0x06] gateway0) = Some 0
   \<and> resultOf gent_i (feed serialRxGent [0x00, 0x06, 0x00, 0x06] gateway0) = Some 4
   \<and> resultOf forwarded (feed serialRxGent [0x00, 0x06, 0x00, 0x06] gateway0) = Some []"
proof -
  have "\<exists>s. feed serialRxGent bs gateway0 = Inr s \<and> list_all gentFrameOk (forwarded s)"
    using gent_feed [OF gentInv0, of bs] by (auto simp: gentInv_def)
  then show ?thesis
    by (simp add: resultOf_def gateway0_def serialRxGent_def gentStore_def Let_def
        rxGentValidateEventPair_def ASCII_ACK_def ASCII_NAK_def)
qed

section \<open>Properties of the byte-stuffed parser\<close>

lemma feedAdvanced_append:
  "feedAdvanced (xs @ ys) s =
    (case feedAdvanced xs s of None \<Rightarrow> None | Some (Inl e) \<Rightarrow> Some (Inl e)
     | Some (Inr s1) \<Rightarrow> feedAdvanced ys s1)"
  by (induction xs arbitrary: s) (auto split: option.splits sum.splits)

lemma advanced_start:
  "serialRxState s = 0 \<Longrightarrow>
   \<exists>s'. serialRxAdvanced 0xfe s = Some (Inr s') \<and> serialRxState s' = 1
     \<and> unat (serialRxLength s') = 1 \<and> serialRxBuffer s' 0 = 0xfe
     \<and> forwarded s' = forwarded s"
  by (simp add: serialRxAdvanced_def rxStore_def)

lemma clash_offset:
  assumes "0xfa \<le> (b :: u8)"
  shows "b - 0xfa \<le> 0x05"
proof -
  have "unat (b - 0xfa) = unat b - unat (0xfa :: u8)"
    using assms by (simp add: unat_sub)
  moreover have "unat b < 256"
    using unsigned_less [of b, where 'a = nat] by simp
  ultimately have "unat (b - 0xfa) \<le> 5" by simp
  then show ?thesis by (simp add: word_le_nat_alt)
qed

lemma advanced_clash_pair:
  assumes "serialRxState s = 1" "unat (serialRxLength s) < 512" "0xfa \<le> b"
  shows "\<exists>s'. feedAdvanced [0xfa, b - 0xfa] s = Some (Inr s') \<and> serialRxState s' = 1
     \<and> serialRxLength s' = serialRxLength s + 1
     \<and> serialRxBuffer s' = (serialRxBuffer s)(unat (serialRxLength s) := b)
     \<and> forwarded s' = forwarded s"
proof -
  have "\<not> 0x05 < b - 0xfa"
    using clash_offset [OF assms(3)] by simp
  then show ?thesis
    using assms(1,2)
    by (simp add: serialRxAdvanced_def rxStore_def)
qed

lemma advanced_clash_pair_overrun:
  assumes "serialRxState s = 1" "512 \<le> unat (serialRxLength s)" "0xfa \<le> b"
  shows "feedAdvanced [0xfa, b - 0xfa] s = Some (Inl RxBufferOverrun)"
proof -
  have "\<not> 0x05 < b - 0xfa"
    using clash_offset [OF assms(3)] by simp
  then show ?thesis
    using assms(1,2)
    by (simp add: serialRxAdvanced_def rxStore_def)
qed

lemma advanced_clash_pairs:
  "serialRxState s = 1 \<Longrightarrow> unat (serialRxLength s) + n \<le> 512 \<Longrightarrow>
   \<exists>s'. feedAdvanced (concat (replicate n [0xfa, 0x00])) s = Some (Inr s')
     \<and> serialRxState s' = 1 \<and> unat (serialRxLength s') = unat (serialRxLength s) + n"
proof (induction n arbitrary: s)
  case 0
  then show ?case by simp
next
  case (Suc n)
  have "(0xfa :: u8) \<le> 0xfa" by simp
  from advanced_clash_pair [OF Suc.prems(1) _ this] Suc.prems(2)
  obtain s1 where s1: "feedAdvanced [0xfa, 0x00] s = Some (Inr s1)" "serialRxState s1 = 1"
      "serialRxLength s1 = serialRxLength s + 1"
    by auto
  have l1: "unat (serialRxLength s1) = unat (serialRxLength s) + 1"
    using s1(3) Suc.prems(2) by (simp add: u16_succ)
  from Suc.IH [OF s1(2)] l1 Suc.prems(2)
  obtain s' where "feedAdvanced (concat (replicate n [0xfa, 0x00])) s1 = Some (Inr s')"
      "serialRxState s' = 1" "unat (serialRxLength s') = unat (serialRxLength s1) + n"
    by auto
  with s1(1) l1 show ?case
    using feedAdvanced_append [of "[0xfa, 0x00]" "concat (replicate n [0xfa, 0x00])" s]
    by simp
qed

lemma concat_replicate_Suc: "concat (replicate (Suc n) xs) = concat (replicate n xs) @ xs"
  by (induction n) simp_all


text \<open>
  C1 fails on the code.  The bound of 108 bytes is tested only in the last branch of
  state 1; the escape state 2 stores the reconstituted byte with no test.  After the start
  byte and 108 stuffed pairs the parser is still collecting, with 109 bytes written; after
  512 pairs the store leaves the 512-byte buffer.
\<close>

theorem advanced_clash_path_exceeds_bound:
  "(\<exists>s. feedAdvanced (clashFlood 108) gateway0 = Some (Inr s) \<and> serialRxState s = 1
       \<and> unat (serialRxLength s) = 109)
   \<and> feedAdvanced (clashFlood 512) gateway0 = Some (Inl RxBufferOverrun)"
proof
  show "\<exists>s. feedAdvanced (clashFlood 108) gateway0 = Some (Inr s) \<and> serialRxState s = 1
       \<and> unat (serialRxLength s) = 109"
  proof -
    have "serialRxState gateway0 = 0" by (simp add: gateway0_def)
    from advanced_start [OF this] obtain s1 where s1: "serialRxAdvanced 0xfe gateway0 = Some (Inr s1)"
      "serialRxState s1 = 1" "unat (serialRxLength s1) = 1"
      by auto
    from advanced_clash_pairs [OF s1(2), of 108] s1(3)
    obtain s where "feedAdvanced (concat (replicate 108 [0xfa, 0x00])) s1 = Some (Inr s)"
      "serialRxState s = 1" "unat (serialRxLength s) = 109"
      by auto
    with s1(1) show ?thesis by (simp add: clashFlood_def)
  qed
  show "feedAdvanced (clashFlood 512) gateway0 = Some (Inl RxBufferOverrun)"
  proof -
    have "serialRxState gateway0 = 0" by (simp add: gateway0_def)
    from advanced_start [OF this] obtain s1 where s1: "serialRxAdvanced 0xfe gateway0 = Some (Inr s1)"
      "serialRxState s1 = 1" "unat (serialRxLength s1) = 1"
      by auto
    from advanced_clash_pairs [OF s1(2), of 511] s1(3)
    obtain s where s: "feedAdvanced (concat (replicate 511 [0xfa, 0x00])) s1 = Some (Inr s)"
      "serialRxState s = 1" "unat (serialRxLength s) = 512"
      by auto
    have "(0xfa :: u8) \<le> 0xfa" by simp
    from advanced_clash_pair_overrun [OF s(2) _ this] s(3)
    have o: "feedAdvanced [0xfa, 0x00] s = Some (Inl RxBufferOverrun)" by simp
    have "clashFlood 512 = clashFlood (Suc 511)" by simp
    also have "\<dots> = 0xfe # concat (replicate 511 [0xfa, 0x00]) @ [0xfa, 0x00]"
      unfolding clashFlood_def by (simp only: concat_replicate_Suc)
    finally have "clashFlood 512 = 0xfe # concat (replicate 511 [0xfa, 0x00]) @ [0xfa, 0x00]" .
    then show ?thesis
      using s1(1) s(1) o by (simp add: feedAdvanced_append)
  qed
qed

text \<open>
  C9.  For a byte \<open>b\<close> of 0xFA or more, \<open>advancedAddClashCodes\<close> sends \<open>b\<close> as the two
  bytes \<open>0xFA, b - 0xFA\<close>, and a parser in the middle of a frame (state 1, the next index
  inside the buffer) that receives these two bytes stores exactly \<open>b\<close> at the next index,
  changes no other byte, and is back in state 1 with one byte more.
\<close>

theorem clash_code_round_trip:
  assumes "0xfa \<le> b" and "serialRxState s = 1" and "unat (serialRxLength s) < 512"
  shows "addClashCodes_body [b] = [0xfa, b - 0xfa]
    \<and> advancedAddClashCodes [h, b, t] = Some ([h, 0xfa, b - 0xfa, t], 4)
    \<and> (\<exists>s'. feedAdvanced (addClashCodes_body [b]) s = Some (Inr s')
          \<and> serialRxState s' = 1
          \<and> serialRxLength s' = serialRxLength s + 1
          \<and> serialRxBuffer s' = (serialRxBuffer s)(unat (serialRxLength s) := b)
          \<and> forwarded s' = forwarded s)"
proof -
  have e: "addClashCodes_body [b] = [0xfa, b - 0xfa]"
    using assms(1) by simp
  have "advancedAddClashCodes [h, b, t] = Some ([h, 0xfa, b - 0xfa, t], 4)"
    using assms(1) by (simp add: advancedAddClashCodes_def)
  with e advanced_clash_pair [OF assms(2,3,1)] show ?thesis
    by simp
qed

theorem clash_code_round_trip_witness:
  "(0xfa :: u8) \<le> 0xff \<and> serialRxState midFrame = 1 \<and> unat (serialRxLength midFrame) < 512
   \<and> addClashCodes_body [0xff] = [0xfa, 0x05]
   \<and> advancedAddClashCodes [0xfe, 0xff, 0xff] = Some ([0xfe, 0xfa, 0x05, 0xff], 4)
   \<and> (\<exists>s'. feedAdvanced [0xfa, 0x05] midFrame = Some (Inr s')
          \<and> serialRxState s' = 1 \<and> serialRxLength s' = 2 \<and> serialRxBuffer s' 1 = 0xff)"
proof -
  have h: "(0xfa :: u8) \<le> 0xff" "serialRxState midFrame = 1"
    "unat (serialRxLength midFrame) < 512"
    by (simp_all add: midFrame_def gateway0_def)
  have l: "serialRxLength midFrame = 1"
    by (simp add: midFrame_def)
  show ?thesis
    using h clash_code_round_trip [OF h, of "0xfe" "0xff"] l
    by auto
qed

section \<open>Properties of the protocol registry\<close>

lemma protocol_id_cases:
  assumes "unat (x :: u8) < PROTOCOL_COUNT"
  shows "x = 0 \<or> x = 1 \<or> x = 2 \<or> x = 3 \<or> x = 4 \<or> x = 5 \<or> x = 6 \<or> x = 7 \<or> x = 8
    \<or> x = 9 \<or> x = 10"
proof -
  have "unat x = 0 \<or> unat x = 1 \<or> unat x = 2 \<or> unat x = 3 \<or> unat x = 4 \<or> unat x = 5
    \<or> unat x = 6 \<or> unat x = 7 \<or> unat x = 8 \<or> unat x = 9 \<or> unat x = 10"
    using assms unfolding PROTOCOL_COUNT_def by arith
  then show ?thesis
    by (auto simp: word_unat_eq_iff)
qed

lemmas registry_defs = protocolHandlerTable_def tableEntry_def serialStartGent_def
  serialStopGent_def serialStartAdvanced_def serialStopAdvanced_def
  serialStartAdvancedASCII_def serialStopAdvancedASCII_def

lemma table_stop:
  assumes "unat (x :: u8) < PROTOCOL_COUNT"
  shows "protocolStopHandler (protocolHandlerTable ! unat x)
     = (if x = 0 \<or> x = 9 then None
        else if x = 1 \<or> x = 5 \<or> x = 10 then Some serialStop else Some serialStub)"
  using protocol_id_cases [OF assms]
  by (elim disjE) (simp_all add: registry_defs)

lemma table_start:
  assumes "unat (x :: u8) < PROTOCOL_COUNT"
  shows "protocolStartHandler (protocolHandlerTable ! unat x)
     = (if x = 0 \<or> x = 9 then None
        else if x = 1 then Some (serialStart RxGent)
        else if x = 5 then Some (serialStart RxAdvanced)
        else if x = 10 then Some (serialStart RxAdvancedAscii)
        else Some serialStub)"
  using protocol_id_cases [OF assms]
  by (elim disjE) (simp_all add: registry_defs)

lemma hasStop_iff: "unat (x :: u8) < PROTOCOL_COUNT \<Longrightarrow> hasStop x = (x \<noteq> 0 \<and> x \<noteq> 9)"
  by (simp add: hasStop_def table_stop)

lemma hasStart_iff: "unat (x :: u8) < PROTOCOL_COUNT \<Longrightarrow> hasStart x = (x \<noteq> 0 \<and> x \<noteq> 9)"
  by (simp add: hasStart_def table_start)

lemma stopCurrent_log:
  assumes "unat (currentId s) < PROTOCOL_COUNT"
  shows "logInfo (stopCurrent s)
      = logInfo s @ (if hasStop (currentId s) then [LogStopping (currentId s)] else [])"
    and "currentId (stopCurrent s) = currentId s"
    and "panelSerialBaud (stopCurrent s) = panelSerialBaud s"
    and "serialFramingId (stopCurrent s) = serialFramingId s"
  using assms
  by (simp_all add: stopCurrent_def hasStop_iff table_stop serialStop_def serialStub_def)

lemma startNew_log:
  assumes "unat (x :: u8) < PROTOCOL_COUNT"
  shows "\<exists>rest. logInfo (startNew x s) = logInfo s @ rest \<and> filter isStopping rest = []
      \<and> length (filter isStarting rest) = (if hasStart x then 1 else 0)"
    and "panelSerialBaud (startNew x s) = panelSerialBaud s"
    and "serialFramingId (startNew x s) = serialFramingId s"
  using assms
  by (simp_all add: startNew_def hasStart_iff table_start serialStart_def serialStub_def)

text \<open>Stopping and starting again the protocol that was just started changes nothing.\<close>

lemma restart_observable:
  assumes "unat (x :: u8) < PROTOCOL_COUNT"
  shows "observable ((startNew x (stopCurrent ((startNew x s)\<lparr>currentId := x\<rparr>)))\<lparr>currentId := x\<rparr>)
     = observable ((startNew x s)\<lparr>currentId := x\<rparr>)"
  using assms
  by (simp add: startNew_def stopCurrent_def observable_def table_start table_stop
      serialStart_def serialStop_def serialStub_def)

text \<open>
  C8, as the code has it.  For valid ids, \<open>setProtocolType x\<close> called twice in a row
  returns both times and leaves the same handler, active id, supply and UART state as
  the first call alone, with active id \<open>x\<close>.  A stop handler is invoked once per call
  when the protocol active at that call has one registered (ids 0 and 9 have none), and
  its line comes first among the lines of the call, before any start; the start handler
  of \<open>x\<close> is invoked once per call when registered, so twice in all, or not at all.
\<close>

theorem protocol_switch_twice:
  assumes "unat (currentId s) < PROTOCOL_COUNT" and "unat x < PROTOCOL_COUNT"
  shows "\<exists>s1 s2. setProtocolType x s = Inr s1 \<and> setProtocolType x s1 = Inr s2
    \<and> setProtocolTypeTwice x s = Inr s2
    \<and> observable s2 = observable s1
    \<and> currentId s2 = x
    \<and> stopCalls s2 = stopCalls s + (if hasStop (currentId s) then 1 else 0)
         + (if hasStop x then 1 else 0)
    \<and> startCalls s2 = startCalls s + (if hasStart x then 2 else 0)
    \<and> (\<exists>rest. logInfo s1 = logInfo s
           @ (if hasStop (currentId s) then [LogStopping (currentId s)] else []) @ rest
         \<and> filter isStopping rest = [])
    \<and> (\<exists>rest. logInfo s2 = logInfo s1 @ (if hasStop x then [LogStopping x] else []) @ rest
         \<and> filter isStopping rest = [])"
proof -
  let ?a = "stopCurrent s"
  let ?s1 = "(startNew x ?a)\<lparr>currentId := x\<rparr>"
  let ?b = "stopCurrent ?s1"
  let ?s2 = "(startNew x ?b)\<lparr>currentId := x\<rparr>"
  have c1: "setProtocolType x s = Inr ?s1"
    using assms by (simp add: setProtocolType_def)
  have c2: "setProtocolType x ?s1 = Inr ?s2"
    using assms by (simp add: setProtocolType_def)
  have cur1: "unat (currentId ?s1) < PROTOCOL_COUNT"
    using assms(2) by simp
  obtain r1 where r1: "logInfo (startNew x ?a) = logInfo ?a @ r1" "filter isStopping r1 = []"
    "length (filter isStarting r1) = (if hasStart x then 1 else 0)"
    using startNew_log(1) [OF assms(2), of ?a] by blast
  obtain r2 where r2: "logInfo (startNew x ?b) = logInfo ?b @ r2" "filter isStopping r2 = []"
    "length (filter isStarting r2) = (if hasStart x then 1 else 0)"
    using startNew_log(1) [OF assms(2), of ?b] by blast
  have l1: "logInfo ?s1 = logInfo s
      @ (if hasStop (currentId s) then [LogStopping (currentId s)] else []) @ r1"
    using r1(1) stopCurrent_log(1) [OF assms(1)] by simp
  have l2: "logInfo ?s2 = logInfo ?s1 @ (if hasStop x then [LogStopping x] else []) @ r2"
    using r2(1) stopCurrent_log(1) [OF cur1] by simp
  have obs: "observable ?s2 = observable ?s1"
    by (rule restart_observable [OF assms(2)])
  have stops: "stopCalls ?s2 = stopCalls s + (if hasStop (currentId s) then 1 else 0)
         + (if hasStop x then 1 else 0)"
    unfolding stopCalls_def l2 l1 using r1(2) r2(2) by simp
  have starts: "startCalls ?s2 = startCalls s + (if hasStart x then 2 else 0)"
    unfolding startCalls_def l2 l1 using r1(3) r2(3) by simp
  show ?thesis
    using c1 c2 obs stops starts l1 l2 r1(2) r2(2)
    by (auto simp: setProtocolTypeTwice_def)
qed


theorem protocol_switch_twice_witness:
  "unat (currentId gentRunning) < PROTOCOL_COUNT \<and> unat (5 :: u8) < PROTOCOL_COUNT
   \<and> (\<exists>s1 s2. setProtocolType 5 gentRunning = Inr s1 \<and> setProtocolType 5 s1 = Inr s2
         \<and> observable s2 = observable s1 \<and> currentId s2 = 5
         \<and> stopCalls s2 = 2 \<and> startCalls s2 = 2)"
proof -
  have h: "unat (currentId gentRunning) < PROTOCOL_COUNT" "unat (5 :: u8) < PROTOCOL_COUNT"
    by (simp_all add: gentRunning_def PROTOCOL_COUNT_def)
  have v: "hasStop (currentId gentRunning)" "hasStop 5" "hasStart 5"
    "stopCalls gentRunning = 0" "startCalls gentRunning = 0"
    by (simp_all add: gentRunning_def hasStop_iff hasStart_iff PROTOCOL_COUNT_def
        stopCalls_def startCalls_def)
  show ?thesis
    using h protocol_switch_twice [OF h] v by auto
qed

text \<open>
  C8 as the specification states it fails: after reset no protocol is active (id 0, no
  stop handler), and two calls for Gent invoke a stop handler once, not twice.
\<close>

theorem protocol_switch_counterexample:
  "resultOf stopCalls (setProtocolTypeTwice 1 panelInterface0) = Some 1
   \<and> resultOf startCalls (setProtocolTypeTwice 1 panelInterface0) = Some 2
   \<and> (1 :: nat) \<noteq> 2"
  by (simp add: resultOf_def setProtocolTypeTwice_def setProtocolType_def PROTOCOL_COUNT_def
      panelInterface0_def stopCurrent_def startNew_def registry_defs serialStart_def
      serialStop_def stopCalls_def startCalls_def)

section \<open>Properties of packet validation and of the forwarding policy\<close>

lemma crc_zeroLengthPacket:
  "advancedCrcUpdate [0x80, 0x00, 0x00, 0x01, 0x0a, 0x00, 0x00, 0xf0] (0xff, 0xff) = (0x76, 0x37)"
  by code_simp

lemma checkPacketFormat_loop_stuck:
  assumes "checkPacketFormat_loop buf maxOffset code offset counts = Some y"
  shows "\<not> (buf (unat offset) = 0 \<and> findIdCode code idCodes 0 \<noteq> None
           \<and> buf (unat (offset - 1)) = code \<and> code \<noteq> 0xf0 \<and> \<not> maxOffset < offset - 1)"
proof (rule checkPacketFormat_loop.raw_induct [OF _ assms,
      where P = "\<lambda>buf maxOffset code offset counts y.
        \<not> (buf (unat offset) = 0 \<and> findIdCode code idCodes 0 \<noteq> None
           \<and> buf (unat (offset - 1)) = code \<and> code \<noteq> 0xf0 \<and> \<not> maxOffset < offset - 1)"])
  fix loop :: "(nat \<Rightarrow> u8) \<Rightarrow> u8 \<Rightarrow> u8 \<Rightarrow> u8 \<Rightarrow> u8 list \<Rightarrow> (bool \<times> u8 list) option"
    and buf maxOffset code offset and counts :: "u8 list" and y
  assume IH: "\<And>buf maxOffset code offset counts y.
      loop buf maxOffset code offset counts = Some y \<Longrightarrow>
      \<not> (buf (unat offset) = 0 \<and> findIdCode code idCodes 0 \<noteq> None
           \<and> buf (unat (offset - 1)) = code \<and> code \<noteq> 0xf0 \<and> \<not> maxOffset < offset - 1)"
    and body: "(case findIdCode code idCodes 0 of
       None \<Rightarrow> Some (False, counts)
     | Some i \<Rightarrow>
         if maxOffset < offset + buf (unat offset) - 1
         then Some (False, counts[i := counts ! i + 1])
         else if buf (unat (offset + buf (unat offset) - 1)) = 0xf0
         then Some (True, counts[i := counts ! i + 1])
         else loop buf maxOffset
                (buf (unat (offset + buf (unat offset) - 1)))
                (offset + buf (unat offset) - 1 + 1)
                (counts[i := counts ! i + 1])) = Some y"
  show "\<not> (buf (unat offset) = 0 \<and> findIdCode code idCodes 0 \<noteq> None
           \<and> buf (unat (offset - 1)) = code \<and> code \<noteq> 0xf0 \<and> \<not> maxOffset < offset - 1)"
  proof
    assume st: "buf (unat offset) = 0 \<and> findIdCode code idCodes 0 \<noteq> None
           \<and> buf (unat (offset - 1)) = code \<and> code \<noteq> 0xf0 \<and> \<not> maxOffset < offset - 1"
    then obtain i where i: "findIdCode code idCodes 0 = Some i" by auto
    from body st i have "loop buf maxOffset code offset (counts[i := counts ! i + 1]) = Some y"
      by simp
    from IH [OF this] st show False by simp
  qed
qed

lemma checkPacketFormat_loop_diverges:
  assumes "buf (unat offset) = 0" "findIdCode code idCodes 0 \<noteq> None"
    "buf (unat (offset - 1)) = code" "code \<noteq> 0xf0" "\<not> maxOffset < offset - 1"
  shows "checkPacketFormat_loop buf maxOffset code offset counts = None"
proof (cases "checkPacketFormat_loop buf maxOffset code offset counts")
  case None
  then show ?thesis .
next
  case (Some y)
  from checkPacketFormat_loop_stuck [OF this] assms show ?thesis by simp
qed

lemma frameOf_byte: "frameOf buf n = xs \<Longrightarrow> k < n \<Longrightarrow> buf k = xs ! k"
  by (auto simp: frameOf_def)

lemma frameOf_slice:
  "frameOf buf n = xs \<Longrightarrow> i \<le> j \<Longrightarrow> j \<le> n
    \<Longrightarrow> map buf [i..<j] = take (j - i) (drop i xs)"
  by (auto simp: frameOf_def drop_map take_map)

lemma frameOf_received: "frameOf (serialRxBuffer (received bs)) (length bs) = bs"
  by (auto simp: received_def frameOf_def intro: nth_equalityI)

lemma validate_zeroLength_any:
  assumes len: "serialRxLength s = 12"
    and fr: "frameOf (serialRxBuffer s) 12 = zeroLengthPacket"
  shows "validateAdvancedBmsPacket s = None"
proof -
  have b: "serialRxBuffer s 1 = 0x80" "serialRxBuffer s 5 = 0x0a" "serialRxBuffer s 6 = 0"
    "serialRxBuffer s 9 = 0x76" "serialRxBuffer s 10 = 0x37"
    using frameOf_byte [OF fr] by (simp_all add: zeroLengthPacket_def)
  have body: "map (serialRxBuffer s) [Suc 0..<9] = [0x80, 0x00, 0x00, 0x01, 0x0a, 0x00, 0x00, 0xf0]"
    using frameOf_slice [OF fr, where i = "Suc 0" and j = 9] by (simp add: zeroLengthPacket_def)
  have crc: "validateCRC (serialRxBuffer s) (serialRxLength s)"
    unfolding len
    by (simp add: validateCRC_def body crc_zeroLengthPacket b del: advancedCrcUpdate.simps)
  have loop: "checkPacketFormat_loop (serialRxBuffer s) (ucast (serialRxLength s - 4))
      (serialRxBuffer s 5) 6 (replicate NUM_ID_CODES 0) = None"
    by (rule checkPacketFormat_loop_diverges) (simp_all add: b len idCodes_def)
  show ?thesis
    using crc loop b
    by (simp add: validateAdvancedBmsPacket_def checkPacketFormat_def len ADVANCED_MIN_LENGTH_def)
qed

lemma crc_wrapPacket:
  "advancedCrcUpdate [0x80, 0x00, 0x00, 0xf0, 0x0a, 0xff, 0x00, 0xf0] (0xff, 0xff) = (0x3b, 0xd2)"
  by code_simp

lemma idCodeCount_reset: "replicate NUM_ID_CODES (0 :: u8) = [0, 0, 0, 0, 0, 0, 0]"
  by code_simp

lemma validate_wrap_any:
  assumes len: "serialRxLength s = 12"
    and fr: "frameOf (serialRxBuffer s) 12 = wrapPacket"
  shows "\<exists>s'. validateAdvancedBmsPacket s = Some (True, s') \<and> idCodeCount s' ! 1 = 1"
proof -
  have b: "serialRxBuffer s 1 = 0x80" "serialRxBuffer s 4 = 0xf0" "serialRxBuffer s 5 = 0x0a"
    "serialRxBuffer s 6 = 0xff" "serialRxBuffer s 9 = 0x3b" "serialRxBuffer s 10 = 0xd2"
    using frameOf_byte [OF fr] by (simp_all add: wrapPacket_def)
  have body: "map (serialRxBuffer s) [Suc 0..<9] = [0x80, 0x00, 0x00, 0xf0, 0x0a, 0xff, 0x00, 0xf0]"
    using frameOf_slice [OF fr, where i = "Suc 0" and j = 9] by (simp add: wrapPacket_def)
  have crc: "validateCRC (serialRxBuffer s) (serialRxLength s)"
    unfolding len
    by (simp add: validateCRC_def body crc_wrapPacket b del: advancedCrcUpdate.simps)
  have loop: "checkPacketFormat_loop (serialRxBuffer s)
      (ucast (serialRxLength s - 4)) (serialRxBuffer s 5) 6 (replicate NUM_ID_CODES 0)
      = Some (True, [0, 1, 0, 0, 0, 0, 0])"
    unfolding idCodeCount_reset
    by (subst checkPacketFormat_loop.simps) (simp add: b len idCodes_def)
  show ?thesis
    using crc loop b
    by (simp add: validateAdvancedBmsPacket_def checkPacketFormat_def len ADVANCED_MIN_LENGTH_def)
qed

lemma spec_zeroLength: "\<not> specChain (serialRxBuffer (received zeroLengthPacket)) 8 5"
  by (simp add: specChain.simps [of _ _ 5] received_def zeroLengthPacket_def)

lemma spec_wrap: "\<not> specChain (serialRxBuffer (received wrapPacket)) 8 5"
  by (simp add: specChain.simps [of _ _ 5] received_def wrapPacket_def)

text \<open>
  One direction holds on every packet the loop's 8-bit offsets can address: a packet of at
  most 259 bytes that the specification calls valid is accepted by the code.
\<close>

lemma findIdCode_known_aux:
  "code \<in> set cs \<Longrightarrow> \<exists>i. findIdCode code cs k = Some i"
  by (induction cs arbitrary: k) auto

lemma findIdCode_known: "code \<in> set idCodes \<Longrightarrow> \<exists>i. findIdCode code idCodes 0 = Some i"
  by (rule findIdCode_known_aux)

lemma unat_of_nat_u8: "n \<le> 255 \<Longrightarrow> unat (word_of_nat n :: u8) = n"
  by (simp only: unat_of_nat) simp

lemma scan_offset:
  assumes "off + unat (b :: u8) \<le> 255"
  shows "(word_of_nat (off + 1) + b - 1 :: u8) = word_of_nat (off + unat b)"
    and "unat (word_of_nat (off + unat b) :: u8) = off + unat b"
proof -
  have "b = word_of_nat (unat b)" by simp
  then have "(word_of_nat (off + 1) + b - 1 :: u8)
      = word_of_nat (off + 1) + word_of_nat (unat b) - 1"
    by simp
  also have "\<dots> = word_of_nat (off + unat b)"
    by (simp del: of_nat_unat)
  finally show "(word_of_nat (off + 1) + b - 1 :: u8) = word_of_nat (off + unat b)" .
  show "unat (word_of_nat (off + unat b) :: u8) = off + unat b"
    using assms by (rule unat_of_nat_u8)
qed

lemma loop_accepts:
  "specChain buf bound off \<Longrightarrow> bound \<le> 255 \<Longrightarrow>
   \<exists>cs. checkPacketFormat_loop buf (word_of_nat bound) (buf off) (word_of_nat (off + 1)) counts
        = Some (True, cs)"
proof (induction buf bound off arbitrary: counts rule: specChain.induct)
  case (1 buf bound off)
  let ?L = "unat (buf (off + 1))"
  from "1.prems"(1) have known: "buf off \<in> set idCodes" and adv: "0 < ?L"
    and inb: "off + ?L \<le> bound"
    and rest: "buf (off + ?L) = 0xf0 \<or> specChain buf bound (off + ?L)"
    by (subst (asm) specChain.simps, simp split: if_splits)+
  from findIdCode_known [OF known] obtain i where i: "findIdCode (buf off) idCodes 0 = Some i"
    by blast
  have le: "off + ?L \<le> 255" using inb "1.prems"(2) by simp
  have o1: "unat (word_of_nat (off + 1) :: u8) = off + 1"
    by (rule unat_of_nat_u8) (use le adv in simp)
  have nxt: "(word_of_nat (off + 1) + buf (off + 1) - 1 :: u8) = word_of_nat (off + ?L)"
    and un: "unat (word_of_nat (off + ?L) :: u8) = off + ?L"
    using scan_offset [OF le] by simp_all
  have "unat (word_of_nat bound :: u8) = bound"
    using "1.prems"(2) by (rule unat_of_nat_u8)
  then have nb: "\<not> (word_of_nat bound :: u8) < word_of_nat (off + ?L)"
    using inb un by (simp only: word_less_nat_alt)
  have step1: "(word_of_nat (off + ?L) + 1 :: u8) = word_of_nat (off + ?L + 1)"
    by simp
  show ?case
  proof (cases "buf (off + ?L) = 0xf0")
    case True
    show ?thesis
      apply (subst checkPacketFormat_loop.simps)
      apply (simp only: i o1 nxt un nb True option.case if_True if_False refl)
      apply blast
      done
  next
    case False
    with rest have "specChain buf bound (off + ?L)" by simp
    from "1.IH" [OF _ False this "1.prems"(2)] known adv inb
    obtain cs where "checkPacketFormat_loop buf (word_of_nat bound) (buf (off + ?L))
        (word_of_nat (off + ?L + 1)) (counts[i := counts ! i + 1]) = Some (True, cs)"
      by auto
    then show ?thesis
      apply (subst checkPacketFormat_loop.simps)
      apply (simp only: i o1 nxt un nb False option.case if_True if_False step1)
      apply blast
      done
  qed
qed


lemma spec_valid_packets_accepted:
  assumes sv: "specValid (serialRxBuffer s) (unat (serialRxLength s))"
    and le: "unat (serialRxLength s) \<le> 259"
  shows "\<exists>s'. validateAdvancedBmsPacket s = Some (True, s')"
proof -
  let ?n = "unat (serialRxLength s)"
  from sv have n12: "12 \<le> ?n"
    and crc: "advancedCrcUpdate (map (serialRxBuffer s) [1..<?n - 3]) (0xff, 0xff)
        = (serialRxBuffer s (?n - 3), serialRxBuffer s (?n - 2))"
    and pid: "serialRxBuffer s 1 = 0x80"
    and chain: "specChain (serialRxBuffer s) (?n - 4) 5"
    by (simp_all add: specValid_def)
  have long: "\<not> serialRxLength s < ADVANCED_MIN_LENGTH"
    using n12 by (simp add: ADVANCED_MIN_LENGTH_def word_less_nat_alt)
  have "(4 :: u16) \<le> serialRxLength s"
    using n12 by (simp add: word_le_nat_alt)
  then have m4: "unat (serialRxLength s - 4) = ?n - 4"
    by (simp add: unat_sub)
  have "1 + (?n - 4) = ?n - 3" using n12 by simp
  then have vc: "validateCRC (serialRxBuffer s) (serialRxLength s)"
    using crc by (simp add: validateCRC_def m4 del: advancedCrcUpdate.simps)
  have b: "?n - 4 \<le> 255" using le by simp
  have "(ucast (serialRxLength s - 4) :: u8) = word_of_nat (unat (serialRxLength s - 4))"
    by simp
  then have mx: "(ucast (serialRxLength s - 4) :: u8) = word_of_nat (?n - 4)"
    by (simp only: m4)
  have six: "(6 :: u8) = word_of_nat (5 + 1)" by simp
  from loop_accepts [OF chain b, of "replicate NUM_ID_CODES 0"]
  obtain cs where "checkPacketFormat_loop (serialRxBuffer s) (ucast (serialRxLength s - 4))
      (serialRxBuffer s 5) 6 (replicate NUM_ID_CODES 0) = Some (True, cs)"
    unfolding mx six by blast
  then have "checkPacketFormat s = Some (True, s\<lparr>idCodeCount := cs\<rparr>)"
    by (simp add: checkPacketFormat_def)
  then show ?thesis
    using long vc pid by (simp add: validateAdvancedBmsPacket_def)
qed

text \<open>
  C6 fails on the code, by the defect of C5.  For the first packet the call for the end
  byte never returns, with verbose on or off: the packet is neither forwarded nor counted
  as discarded.
\<close>

theorem advanced_end_byte_never_returns: "feedAdvanced zeroLengthPacket (gateway0\<lparr>verbose := v\<rparr>) = None"
proof -
  have "\<exists>s. feedAdvanced (butlast zeroLengthPacket) (gateway0\<lparr>verbose := v\<rparr>) = Some (Inr s)
      \<and> serialRxState s = 1 \<and> serialRxLength s = 11
      \<and> frameOf (serialRxBuffer s) 11 = butlast zeroLengthPacket"
    by (simp add: zeroLengthPacket_def gateway0_def serialRxAdvanced_def rxStore_def
        ADVANCED_MAX_LENGTH_def frameOf_def upt_conv_Cons word_le_nat_alt word_less_nat_alt)
  then obtain s where s: "feedAdvanced (butlast zeroLengthPacket) (gateway0\<lparr>verbose := v\<rparr>) = Some (Inr s)"
    "serialRxState s = 1" "serialRxLength s = 11"
    "frameOf (serialRxBuffer s) 11 = butlast zeroLengthPacket"
    by blast
  let ?s1 = "s\<lparr>serialRxBuffer := (serialRxBuffer s)(11 := 0xff), serialRxLength := 12\<rparr>"
  have st: "rxStore 0xff s = Inr ?s1"
    using s(3) by (simp add: rxStore_def)
  have "frameOf (serialRxBuffer ?s1) (Suc 11) = butlast zeroLengthPacket @ [0xff]"
    using s(4) by (simp only: frameOf_Suc) (simp add: frameOf_upd)
  then have "frameOf (serialRxBuffer ?s1) 12 = zeroLengthPacket"
    by (simp add: zeroLengthPacket_def)
  then have "validateAdvancedBmsPacket ?s1 = None"
    by (intro validate_zeroLength_any) simp_all
  then have "serialRxAdvanced 0xff s = None"
    using s(2) st by (simp add: serialRxAdvanced_def)
  moreover have "zeroLengthPacket = butlast zeroLengthPacket @ [0xff]"
    by (simp add: zeroLengthPacket_def)
  ultimately show ?thesis
    using s(1) feedAdvanced_append [of "butlast zeroLengthPacket" "[0xff]" "gateway0\<lparr>verbose := v\<rparr>"]
    by simp
qed

text \<open>What validation leaves unchanged.\<close>

lemma validate_keeps:
  assumes "validateAdvancedBmsPacket s = Some (valid, s1)"
  shows "serialRxBuffer s1 = serialRxBuffer s" "serialRxLength s1 = serialRxLength s"
    "verbose s1 = verbose s" "forwarded s1 = forwarded s"
    "totalDiscardedBytes s1 = totalDiscardedBytes s" "serialRxState s1 = serialRxState s"
  using assms
  by (auto simp: validateAdvancedBmsPacket_def checkPacketFormat_def
      split: if_splits option.splits)

lemma serialTxEventToNimbus_effect:
  assumes "unat (serialRxLength s) \<le> 244"
  shows "\<exists>s'. serialTxEventToNimbus s = Inr s'
     \<and> forwarded s' = forwarded s @ [frameOf (serialRxBuffer s) (unat (serialRxLength s))]
     \<and> totalDiscardedBytes s' = totalDiscardedBytes s
     \<and> totalRxEvents s' = totalRxEvents s + 1
     \<and> errorStr s' = errorStr s"
  using assms
  by (simp add: serialTxEventToNimbus_def Let_def Time_now_def frameOf_def split: prod.splits)

text \<open>
  The forwarding policy at the end byte, for a packet on which validation returns and
  which fits the event record.
\<close>

lemma advancedDispatch_policy:
  assumes "unat (serialRxLength s) \<le> 244"
  shows "\<exists>s'. advancedDispatch valid s = Inr s' \<and> serialRxState s' = 0
     \<and> forwarded s' =
         (if (valid \<and> (verbose s \<or> 0 < idCodeCount s ! 1)) \<or> (\<not> valid \<and> verbose s)
          then forwarded s @ [frameOf (serialRxBuffer s) (unat (serialRxLength s))]
          else forwarded s)
     \<and> totalDiscardedBytes s' =
         (if \<not> valid \<and> \<not> verbose s
          then totalDiscardedBytes s + ucast (serialRxLength s)
          else totalDiscardedBytes s)"
  using serialTxEventToNimbus_effect [OF assms]
  by (auto simp: advancedDispatch_def)

lemma advanced_end_byte_policy:
  assumes st: "serialRxState s = 1" and len: "unat (serialRxLength s) < 244"
    and v: "validateAdvancedBmsPacket
          (s\<lparr>serialRxBuffer := (serialRxBuffer s)(unat (serialRxLength s) := 0xff),
             serialRxLength := serialRxLength s + 1\<rparr>) = Some (valid, s1)"
  shows "\<exists>s'. serialRxAdvanced 0xff s = Some (Inr s') \<and> serialRxState s' = 0
     \<and> forwarded s' =
         (if (valid \<and> (verbose s \<or> 0 < idCodeCount s1 ! 1)) \<or> (\<not> valid \<and> verbose s)
          then forwarded s @ [frameOf ((serialRxBuffer s)(unat (serialRxLength s) := 0xff))
                               (unat (serialRxLength s) + 1)]
          else forwarded s)
     \<and> totalDiscardedBytes s' =
         (if \<not> valid \<and> \<not> verbose s
          then totalDiscardedBytes s + ucast (serialRxLength s + 1)
          else totalDiscardedBytes s)"
proof -
  have l1: "unat (serialRxLength s + 1) = unat (serialRxLength s) + 1"
    using len by (simp add: unat_word_ariths)
  then have "unat (serialRxLength s1) \<le> 244"
    using validate_keeps(2) [OF v] len by simp
  from advancedDispatch_policy [OF this, of valid] obtain s' where
    "advancedDispatch valid s1 = Inr s'" "serialRxState s' = 0"
    "forwarded s' =
         (if (valid \<and> (verbose s1 \<or> 0 < idCodeCount s1 ! 1)) \<or> (\<not> valid \<and> verbose s1)
          then forwarded s1 @ [frameOf (serialRxBuffer s1) (unat (serialRxLength s1))]
          else forwarded s1)"
    "totalDiscardedBytes s' =
         (if \<not> valid \<and> \<not> verbose s1
          then totalDiscardedBytes s1 + ucast (serialRxLength s1)
          else totalDiscardedBytes s1)"
    by blast
  then show ?thesis
    using st len v validate_keeps [OF v] l1
    by (simp add: serialRxAdvanced_def rxStore_def)
qed

text \<open>Scenario B: a frame of fewer than 12 bytes, end byte included.\<close>

lemma advanced_short_frame:
  assumes st: "serialRxState s = 1" and len: "unat (serialRxLength s) < 11"
  shows "\<exists>s'. serialRxAdvanced 0xff s = Some (Inr s') \<and> serialRxState s' = 0
     \<and> errorStr s' = errPacketTooShort
     \<and> forwarded s' =
         (if verbose s
          then forwarded s @ [frameOf ((serialRxBuffer s)(unat (serialRxLength s) := 0xff))
                               (unat (serialRxLength s) + 1)]
          else forwarded s)
     \<and> totalDiscardedBytes s' =
         (if verbose s then totalDiscardedBytes s
          else totalDiscardedBytes s + ucast (serialRxLength s + 1))"
proof -
  let ?s1 = "s\<lparr>serialRxBuffer := (serialRxBuffer s)(unat (serialRxLength s) := 0xff),
             serialRxLength := serialRxLength s + 1\<rparr>"
  have l1: "unat (serialRxLength s + 1) = unat (serialRxLength s) + 1"
    using len by (simp add: unat_word_ariths)
  then have short: "serialRxLength ?s1 < ADVANCED_MIN_LENGTH"
    using len by (simp add: ADVANCED_MIN_LENGTH_def word_less_nat_alt)
  have v: "validateAdvancedBmsPacket ?s1 = Some (False, ?s1\<lparr>errorStr := errPacketTooShort\<rparr>)"
    using short by (simp add: validateAdvancedBmsPacket_def)
  have fit: "unat (serialRxLength (?s1\<lparr>errorStr := errPacketTooShort\<rparr>)) \<le> 244"
    using l1 len by simp
  from serialTxEventToNimbus_effect [OF fit] obtain t where
    t: "serialTxEventToNimbus (?s1\<lparr>errorStr := errPacketTooShort\<rparr>) = Inr t"
      "forwarded t = forwarded s @ [frameOf ((serialRxBuffer s)(unat (serialRxLength s) := 0xff))
                               (unat (serialRxLength s) + 1)]"
      "totalDiscardedBytes t = totalDiscardedBytes s" "errorStr t = errPacketTooShort"
    using l1 by auto
  show ?thesis
    using st len v t
    by (simp add: serialRxAdvanced_def rxStore_def advancedDispatch_def)
qed


text \<open>
  C5 fails on the code.  \<open>checkPacketFormat\<close> keeps \<open>offset\<close> in a \<open>uint8_t\<close> and adds
  \<open>length - 1\<close> to it: with length byte 0 the scan returns to the same code and never
  ends; with length byte 0xFF the offset wraps around to 4, where the sequence number
  0xF0 is taken for the end of the chain, and the packet is judged valid.  By the
  specification both packets are invalid.
\<close>

theorem advanced_validation_differs_from_spec:
  "validateAdvancedBmsPacket (received zeroLengthPacket) = None
   \<and> \<not> specValid (serialRxBuffer (received zeroLengthPacket)) (length zeroLengthPacket)
   \<and> map_option fst (validateAdvancedBmsPacket (received wrapPacket)) = Some True
   \<and> \<not> specValid (serialRxBuffer (received wrapPacket)) (length wrapPacket)"
proof -
  have lz: "length zeroLengthPacket = 12" and lw: "length wrapPacket = 12"
    by (simp_all add: zeroLengthPacket_def wrapPacket_def)
  have z: "validateAdvancedBmsPacket (received zeroLengthPacket) = None"
  proof (rule validate_zeroLength_any)
    show "serialRxLength (received zeroLengthPacket) = 12"
      by (simp add: received_def lz)
    show "frameOf (serialRxBuffer (received zeroLengthPacket)) 12 = zeroLengthPacket"
      using frameOf_received [of zeroLengthPacket] by (simp only: lz)
  qed
  have "\<exists>s'. validateAdvancedBmsPacket (received wrapPacket) = Some (True, s')
      \<and> idCodeCount s' ! 1 = 1"
  proof (rule validate_wrap_any)
    show "serialRxLength (received wrapPacket) = 12"
      by (simp add: received_def lw)
    show "frameOf (serialRxBuffer (received wrapPacket)) 12 = wrapPacket"
      using frameOf_received [of wrapPacket] by (simp only: lw)
  qed
  then have w: "map_option fst (validateAdvancedBmsPacket (received wrapPacket)) = Some True"
    by auto
  show ?thesis
    using z w spec_zeroLength spec_wrap by (simp add: specValid_def lz lw)
qed

section \<open>Properties of the rolling transfer id\<close>

lemma ucast_counter: "(ucast (word_of_nat n :: u8) :: u32) = word_of_nat (n mod 256)"
  by (simp add: unsigned_of_nat take_bit_eq_mod)

lemma Base64_always_fits: "Base64_encode_ok (unat (x :: u8))"
proof -
  have "unat x < 256"
    using unsigned_less [of x, where 'a = nat] by simp
  then show ?thesis
    by (simp add: Base64_encode_ok_def)
qed

text \<open>What one call of the encoder does to the counter and to the published records.\<close>

lemma serialTxEventToNimbus_ids:
  assumes "serialTxEventToNimbus s = Inr s'"
  shows "uniqueTransferId s' = uniqueTransferId s + 1
     \<and> (\<exists>n. published s' = published s @ [(nimbusTransferMessage s', n)])
     \<and> tm_uniqueTransferId (nimbusTransferMessage s') = ucast (uniqueTransferId s)
     \<and> length (forwarded s') = length (forwarded s) + 1"
  using assms
  by (auto simp: serialTxEventToNimbus_def Let_def Time_now_def Base64_always_fits
      split: prod.splits if_splits)

lemma rollingIds_Suc: "rollingIds (Suc n) = rollingIds n @ [word_of_nat ((n + 1) mod 256)]"
  by (simp add: rollingIds_def)

lemma tx_idOk:
  assumes "serialTxEventToNimbus s = Inr s'"
    "idOk (uniqueTransferId s) (published s) (forwarded s)"
  shows "idOk (uniqueTransferId s') (published s') (forwarded s')"
proof -
  from serialTxEventToNimbus_ids [OF assms(1)] obtain n where
    c: "uniqueTransferId s' = uniqueTransferId s + 1"
    and p: "published s' = published s @ [(nimbusTransferMessage s', n)]"
    and i: "tm_uniqueTransferId (nimbusTransferMessage s') = ucast (uniqueTransferId s)"
    and f: "length (forwarded s') = length (forwarded s) + 1"
    by blast
  from assms(2) have c0: "uniqueTransferId s = word_of_nat (length (published s) + 1)"
    and l0: "map (tm_uniqueTransferId \<circ> fst) (published s) = rollingIds (length (published s))"
    and f0: "length (published s) = length (forwarded s)"
    by (simp_all add: idOk_def)
  have "tm_uniqueTransferId (nimbusTransferMessage s')
      = word_of_nat ((length (published s) + 1) mod 256)"
    unfolding i c0 by (rule ucast_counter)
  then show ?thesis
    using c p c0 l0 f f0 by (simp add: idOk_def rollingIds_Suc)
qed

lemma ascii_step_idInv:
  assumes "serialRxAdvancedAscii c s = Inr s'" "idInv s"
  shows "idInv s'"
  using assms
  by (auto simp: serialRxAdvancedAscii_def asciiIdle_def asciiCollect_def asciiRecover_def
      rxStore_def Let_def idInv_def split: if_splits sum.splits dest!: tx_idOk)

lemma gent_step_idInv:
  assumes "serialRxGent c s = Inr s'" "idInv s"
  shows "idInv s'"
  using assms
  by (auto simp: serialRxGent_def gentStore_def serialProcessGent_def Let_def idInv_def
      split: if_splits sum.splits dest!: tx_idOk)

lemma validate_ids:
  assumes "validateAdvancedBmsPacket s = Some r"
  shows "uniqueTransferId (snd r) = uniqueTransferId s" "published (snd r) = published s"
    "forwarded (snd r) = forwarded s"
  using assms
  by (auto simp: validateAdvancedBmsPacket_def checkPacketFormat_def
      split: if_splits option.splits)

lemma advancedDispatch_idInv:
  assumes "advancedDispatch valid s = Inr s'" "idInv s"
  shows "idInv s'"
  using assms
  by (auto simp: advancedDispatch_def idInv_def split: if_splits sum.splits dest!: tx_idOk)

lemma advancedAbort_idInv:
  assumes "advancedAbort s = Inr s'" "idInv s"
  shows "idInv s'"
  using assms
  by (auto simp: advancedAbort_def advancedPacketReceptionError_def idInv_def
      split: if_splits sum.splits dest!: tx_idOk)

lemma advanced_step_idInv:
  assumes "serialRxAdvanced c s = Some (Inr s')" "idInv s"
  shows "idInv s'"
proof -
  have store: "idInv t'" if "rxStore b t = Inr t'" "idInv t" for b t t'
    using that by (auto simp: rxStore_def idInv_def split: if_splits)
  have val: "idInv (snd r)" if "validateAdvancedBmsPacket t = Some r" "idInv t" for t r
    using that validate_ids [OF that(1)] by (simp add: idInv_def)
  show ?thesis
  proof (cases "serialRxState s = 1 \<and> c = 0xff")
    case True
    with assms(1) obtain t r where t: "rxStore 0xff s = Inr t"
      and r: "validateAdvancedBmsPacket t = Some r"
      and d: "advancedDispatch (fst r) (snd r) = Inr s'"
      by (auto simp: serialRxAdvanced_def split: sum.splits option.splits)
    from advancedDispatch_idInv [OF d val [OF r store [OF t assms(2)]]] show ?thesis .
  next
    case False
    then show ?thesis
      using assms
      by (auto simp: serialRxAdvanced_def split: if_splits sum.splits
          dest: store advancedAbort_idInv simp: idInv_def)
  qed
qed

lemma feed_idInv:
  assumes step: "\<And>c s s'. h c s = Inr s' \<Longrightarrow> idInv s \<Longrightarrow> idInv s'"
  shows "feed h bs s = Inr s' \<Longrightarrow> idInv s \<Longrightarrow> idInv s'"
proof (induction bs arbitrary: s)
  case Nil
  then show ?case by simp
next
  case (Cons c cs)
  from Cons.prems(1) obtain s1 where s1: "h c s = Inr s1" "feed h cs s1 = Inr s'"
    by (auto split: sum.splits)
  from Cons.IH [OF s1(2) step [OF s1(1) Cons.prems(2)]] show ?case .
qed

lemma feedAdvanced_idInv:
  "feedAdvanced bs s = Some (Inr s') \<Longrightarrow> idInv s \<Longrightarrow> idInv s'"
proof (induction bs arbitrary: s)
  case Nil
  then show ?case by simp
next
  case (Cons c cs)
  from Cons.prems(1) obtain s1 where s1: "serialRxAdvanced c s = Some (Inr s1)"
      "feedAdvanced cs s1 = Some (Inr s')"
    by (auto split: sum.splits option.splits)
  from Cons.IH [OF s1(2) advanced_step_idInv [OF s1(1) Cons.prems(2)]] show ?case .
qed

lemma gent_feed_idInv:
  assumes "feed serialRxGent bs s = Inr s'" "idInv s"
  shows "idInv s'"
  by (rule feed_idInv [of serialRxGent, OF _ assms]) (rule gent_step_idInv)

lemma ascii_feed_idInv:
  assumes "feed serialRxAdvancedAscii bs s = Inr s'" "idInv s"
  shows "idInv s'"
  by (rule feed_idInv [of serialRxAdvancedAscii, OF _ assms]) (rule ascii_step_idInv)

lemma idInv_configured: "idInv (configured v p)"
  by (simp add: idInv_def idOk_def configured_def gateway0_def rollingIds_def)

lemma unat_rollingIds: "k < n \<Longrightarrow> unat (rollingIds n ! k) = (k + 1) mod 256"
proof -
  assume "k < n"
  then have "rollingIds n ! k = (word_of_nat ((k + 1) mod 256) :: u32)"
    by (simp add: rollingIds_def)
  moreover have "unat (word_of_nat ((k + 1) mod 256) :: u32) = (k + 1) mod 256"
    by (simp add: unat_of_nat)
  ultimately show ?thesis by simp
qed

text \<open>
  C10.  The counter is 1 after reset.  Whatever bytes one of the three parsers is fed
  after reset, under any configuration, when the run ends without a fault every forwarded
  frame has its published record, and the published records carry, in order, the ids
  1, 2, 3, ... modulo 256: record number \<open>k\<close> (from 0) has the 32-bit id field
  \<open>(k + 1) mod 256\<close>, so no id exceeds 255 and each id is the one before plus 1
  modulo 256; the 8-bit counter holds the id of the next record.
\<close>

theorem transfer_ids_roll:
  assumes "feed serialRxGent bs (configured v p) = Inr s
    \<or> feed serialRxAdvancedAscii bs (configured v p) = Inr s
    \<or> feedAdvanced bs (configured v p) = Some (Inr s)"
  shows "uniqueTransferId (configured v p) = 1
    \<and> length (published s) = length (forwarded s)
    \<and> publishedIds s = rollingIds (length (published s))
    \<and> (\<forall>k < length (published s). unat (publishedIds s ! k) = (k + 1) mod 256)
    \<and> (\<forall>k < length (published s). unat (publishedIds s ! k) \<le> 255)
    \<and> (\<forall>k. Suc k < length (published s) \<longrightarrow>
          unat (publishedIds s ! Suc k) = (unat (publishedIds s ! k) + 1) mod 256)
    \<and> uniqueTransferId s = word_of_nat (length (published s) + 1)"
proof -
  have "idInv s"
    using assms gent_feed_idInv [of bs "configured v p" s]
      ascii_feed_idInv [of bs "configured v p" s]
      feedAdvanced_idInv [of bs "configured v p" s] idInv_configured [of v p]
    by blast
  then have ids: "publishedIds s = rollingIds (length (published s))"
    and c: "uniqueTransferId s = word_of_nat (length (published s) + 1)"
    and f: "length (published s) = length (forwarded s)"
    by (simp_all add: idInv_def idOk_def publishedIds_def)
  have k: "unat (publishedIds s ! k) = (k + 1) mod 256" if "k < length (published s)" for k
    unfolding ids using that by (rule unat_rollingIds)
  have "unat (publishedIds s ! Suc k) = (unat (publishedIds s ! k) + 1) mod 256"
    if "Suc k < length (published s)" for k
    using k [of k] k [of "Suc k"] that by (simp add: mod_simps)
  moreover have "unat (publishedIds s ! k) \<le> 255" if "k < length (published s)" for k
    using k [OF that] by simp
  ultimately show ?thesis
    using ids c k f by (simp add: configured_def gateway0_def)
qed

theorem transfer_ids_roll_witness:
  "\<exists>s. feed serialRxAdvancedAscii (line1Input @ line1Input) (configured False 10) = Inr s
     \<and> length (published s) = 2
     \<and> publishedIds s = [1, 2]
     \<and> uniqueTransferId s = 3"
proof -
  have "\<exists>s. feed serialRxAdvancedAscii (line1Input @ line1Input) (configured False 10) = Inr s
     \<and> length (published s) = 2"
    by (simp add: line1Input_def configured_def gateway0_def ascii_defs
        serialTxEventToNimbus_def Let_def Time_now_def Base64_encode_ok_def)
  then obtain s where s: "feed serialRxAdvancedAscii (line1Input @ line1Input)
      (configured False 10) = Inr s" "length (published s) = 2"
    by blast
  from transfer_ids_roll [of "line1Input @ line1Input" False 10 s] s
  have "publishedIds s = rollingIds 2" "uniqueTransferId s = 3"
    by simp_all
  then show ?thesis
    using s by (auto simp: rollingIds_def upt_conv_Cons)
qed


end
